theory Spec2Isabelle
  imports Main
begin

section \<open>Data model\<close>

text \<open>
  The worklog generator \<^verbatim>\<open>timesheet.py\<close> is embedded function by function. Python's
  unbounded integers are \<open>int\<close>; an exception is a value of \<open>py_error\<close> on the left of a
  sum, so that every function which may raise returns \<open>py_error + 'a\<close>.
\<close>

datatype py_error = ValueError | IndexError | OverflowError

text \<open>The dataclass \<^verbatim>\<open>Issue\<close>.\<close>

record issue =
  key :: string
  summary :: string
  weight :: int

text \<open>
  A \<^verbatim>\<open>datetime.date\<close>: the three fields of the Python object. Python only ever builds
  valid dates (\<open>valid_date\<close> below); the record itself does not enforce it.
\<close>

record date =
  date_year :: int
  date_month :: int
  date_day :: int

text \<open>
  A \<^verbatim>\<open>datetime.datetime\<close> with whole seconds: the day number of its date
  (\<^verbatim>\<open>date.toordinal()\<close>, 1 for 0001-01-01), the second within that day, and the UTC
  offset in seconds of its \<^verbatim>\<open>tzinfo\<close> (\<open>None\<close> for a naive value).
\<close>

record datetime =
  dt_ordinal :: int
  dt_second :: int
  dt_utcoffset :: "int option"

text \<open>
  The dictionary built for each worklog. \<open>started\<close> holds the datetime that the source
  renders with \<^verbatim>\<open>strftime\<close>; the rendering itself is not modelled.
\<close>

record payload =
  comment :: string
  started :: datetime
  timeSpentSeconds :: int

section \<open>The calendar of the standard library\<close>

definition MINYEAR :: int where
  "MINYEAR = 1"

definition MAXYEAR :: int where
  "MAXYEAR = 9999"

text \<open>\<^verbatim>\<open>date.max.toordinal()\<close>, the day number of 9999-12-31.\<close>

definition MAXORDINAL :: int where
  "MAXORDINAL = 3652059"

definition isleap :: "int \<Rightarrow> bool" where
  "isleap y = (y mod 4 = 0 \<and> (y mod 100 \<noteq> 0 \<or> y mod 400 = 0))"

text \<open>\<^verbatim>\<open>calendar.mdays\<close>, indexed by the month number.\<close>

definition mdays :: "int \<Rightarrow> int" where
  "mdays m =
     (if m = 2 then 28
      else if m = 4 \<or> m = 6 \<or> m = 9 \<or> m = 11 then 30
      else 31)"

definition days_in_month :: "int \<Rightarrow> int \<Rightarrow> int" where
  "days_in_month y m = mdays m + (if m = 2 \<and> isleap y then 1 else 0)"

definition valid_date :: "date \<Rightarrow> bool" where
  "valid_date d =
     (MINYEAR \<le> date_year d \<and> date_year d \<le> MAXYEAR \<and>
      1 \<le> date_month d \<and> date_month d \<le> 12 \<and>
      1 \<le> date_day d \<and> date_day d \<le> days_in_month (date_year d) (date_month d))"

text \<open>The constructor \<^verbatim>\<open>date(year, month, day)\<close>, which raises on an invalid triple.\<close>

definition date_new :: "int \<Rightarrow> int \<Rightarrow> int \<Rightarrow> py_error + date" where
  "date_new y m d =
     (let r = \<lparr>date_year = y, date_month = m, date_day = d\<rparr>
      in if valid_date r then Inr r else Inl ValueError)"

definition days_before_year :: "int \<Rightarrow> int" where
  "days_before_year y =
     (let p = y - 1 in p * 365 + p div 4 - p div 100 + p div 400)"

definition days_before_month :: "int \<Rightarrow> int \<Rightarrow> int" where
  "days_before_month y m =
     (if m = 1 then 0 else if m = 2 then 31 else if m = 3 then 59
      else if m = 4 then 90 else if m = 5 then 120 else if m = 6 then 151
      else if m = 7 then 181 else if m = 8 then 212 else if m = 9 then 243
      else if m = 10 then 273 else if m = 11 then 304 else 334)
     + (if m > 2 \<and> isleap y then 1 else 0)"

definition toordinal :: "date \<Rightarrow> int" where
  "toordinal d =
     days_before_year (date_year d) + days_before_month (date_year d) (date_month d)
     + date_day d"

text \<open>\<^verbatim>\<open>date.weekday()\<close>: Monday is 0 and Sunday is 6.\<close>

definition weekday :: "date \<Rightarrow> int" where
  "weekday d = (toordinal d + 6) mod 7"

text \<open>The comparisons of two dates: lexicographic on year, month and day.\<close>

definition date_less :: "date \<Rightarrow> date \<Rightarrow> bool" where
  "date_less a b =
     (date_year a < date_year b \<or>
      (date_year a = date_year b \<and>
       (date_month a < date_month b \<or>
        (date_month a = date_month b \<and> date_day a < date_day b))))"

definition date_le :: "date \<Rightarrow> date \<Rightarrow> bool" where
  "date_le a b =
     (date_year a < date_year b \<or>
      (date_year a = date_year b \<and>
       (date_month a < date_month b \<or>
        (date_month a = date_month b \<and> date_day a \<le> date_day b))))"

text \<open>\<^verbatim>\<open>date.max\<close>.\<close>

definition date_max :: date where
  "date_max = \<lparr>date_year = MAXYEAR, date_month = 12, date_day = 31\<rparr>"

text \<open>
  \<^verbatim>\<open>d + timedelta(days=1)\<close>: the day after a valid date, or \<^verbatim>\<open>OverflowError\<close> when the
  year would pass \<open>MAXYEAR\<close>.
\<close>

definition date_add_day :: "date \<Rightarrow> py_error + date" where
  "date_add_day d =
     (let dd = date_day d + 1
      in if dd \<le> days_in_month (date_year d) (date_month d) then Inr (d\<lparr>date_day := dd\<rparr>)
         else if date_month d + 1 \<le> 12
           then Inr \<lparr>date_year = date_year d, date_month = date_month d + 1, date_day = 1\<rparr>
         else if date_year d + 1 \<le> MAXYEAR
           then Inr \<lparr>date_year = date_year d + 1, date_month = 1, date_day = 1\<rparr>
         else Inl OverflowError)"

text \<open>
  \<^verbatim>\<open>datetime.combine(day, time(hour, minute, second))\<close> and
  \<^verbatim>\<open>.replace(tzinfo=timezone(timedelta(seconds=off)))\<close>.
\<close>

definition datetime_combine :: "date \<Rightarrow> int \<Rightarrow> int \<Rightarrow> int \<Rightarrow> datetime" where
  "datetime_combine d h mi s =
     \<lparr>dt_ordinal = toordinal d, dt_second = h * 3600 + mi * 60 + s, dt_utcoffset = None\<rparr>"

definition replace_tzinfo :: "datetime \<Rightarrow> int \<Rightarrow> datetime" where
  "replace_tzinfo dt off = dt\<lparr>dt_utcoffset := Some off\<rparr>"

text \<open>
  \<^verbatim>\<open>dt + timedelta(seconds=s)\<close>. The timedelta is normalised to days and seconds and
  refuses more than 999999999 days; the sum is carried into the day number and must stay
  a date between \<^verbatim>\<open>date.min\<close> and \<^verbatim>\<open>date.max\<close>. Both failures are \<^verbatim>\<open>OverflowError\<close>.
\<close>

definition datetime_add_seconds :: "datetime \<Rightarrow> int \<Rightarrow> py_error + datetime" where
  "datetime_add_seconds dt s =
     (let td_days = s div 86400; td_seconds = s mod 86400
      in if \<bar>td_days\<bar> > 999999999 then Inl OverflowError
         else
           (let sec = dt_second dt + td_seconds;
                ord = dt_ordinal dt + td_days + sec div 86400
            in if ord < 1 \<or> ord > MAXORDINAL then Inl OverflowError
               else Inr (dt\<lparr>dt_ordinal := ord, dt_second := sec mod 86400\<rparr>)))"

text \<open>
  Aware datetimes compare by their UTC instant: the seconds since the start of day 0,
  less the offset.
\<close>

definition utc_seconds :: "datetime \<Rightarrow> int" where
  "utc_seconds dt =
     dt_ordinal dt * 86400 + dt_second dt
     - (case dt_utcoffset dt of None \<Rightarrow> 0 | Some off \<Rightarrow> off)"

section \<open>The random module\<close>

text \<open>
  The generator is an arbitrary infinite sequence of draws; each library call consumes
  one. Every theorem below holds for all sequences, hence for every run of the
  Mersenne Twister.
\<close>

type_synonym rng = "nat \<Rightarrow> nat"

definition rng_next :: "rng \<Rightarrow> nat \<times> rng" where
  "rng_next g = (g 0, \<lambda>i. g (Suc i))"

text \<open>\<^verbatim>\<open>random.randint(a, b)\<close>: an integer of \<open>[a, b]\<close>, or \<^verbatim>\<open>ValueError\<close> on an empty range.\<close>

definition randint :: "rng \<Rightarrow> int \<Rightarrow> int \<Rightarrow> py_error + (int \<times> rng)" where
  "randint g a b =
     (if b < a then Inl ValueError
      else (let (r, g') = rng_next g in Inr (a + int r mod (b - a + 1), g')))"

text \<open>\<^verbatim>\<open>itertools.accumulate\<close>: the running sums.\<close>

fun accumulate :: "int \<Rightarrow> int list \<Rightarrow> int list" where
  "accumulate acc [] = []"
| "accumulate acc (w # ws) = (acc + w) # accumulate (acc + w) ws"

text \<open>\<^verbatim>\<open>bisect.bisect_right(a, x, lo, hi)\<close>, the binary search as the library runs it.\<close>

function bisect :: "int list \<Rightarrow> int \<Rightarrow> nat \<Rightarrow> nat \<Rightarrow> nat" where
  "bisect a x lo hi =
     (if lo < hi
      then (let mid = (lo + hi) div 2
            in if x < a ! mid then bisect a x lo mid else bisect a x (mid + 1) hi)
      else lo)"
  by pat_completeness auto
termination
  by (relation "measure (\<lambda>(a, x, lo, hi). hi - lo)") auto

declare bisect.simps [simp del]

text \<open>
  The largest total weight that still converts to a float: from \<open>2^1024 - 2^970\<close> on,
  \<^verbatim>\<open>cum_weights[-1] + 0.0\<close> raises \<^verbatim>\<open>OverflowError\<close>.
\<close>

definition float_overflow :: int where
  "float_overflow = 2 ^ 1024 - 2 ^ 970"

text \<open>
  \<^verbatim>\<open>random.choices(population, weights=weights, k=1)[0]\<close>. The library searches the
  first \<open>n - 1\<close> cumulative weights for the point \<^verbatim>\<open>random() * total\<close> of \<open>[0, total)\<close>;
  the weights are integers, so only the integer part of the point decides the
  comparisons, and the draw supplies it. The floating-point rounding of the product is
  not modelled; whatever the point, the index found is at most \<open>n - 1\<close>.
\<close>

definition choices :: "rng \<Rightarrow> 'a list \<Rightarrow> int list \<Rightarrow> py_error + ('a \<times> rng)" where
  "choices g population weights =
     (let n = length population; cum_weights = accumulate 0 weights
      in if length cum_weights \<noteq> n then Inl ValueError
         else if cum_weights = [] then Inl IndexError
         else
           (let total = last cum_weights
            in if total \<ge> float_overflow then Inl OverflowError
               else if total \<le> 0 then Inl ValueError
               else
                 (let (r, g') = rng_next g;
                      x = int r mod total;
                      hi = n - 1
                  in Inr (population ! bisect cum_weights x 0 hi, g'))))"

section \<open>The allocator: \<^verbatim>\<open>build_day_payloads\<close>\<close>

definition hour_seconds :: int where
  "hour_seconds = 3600"

text \<open>The variables that the \<^verbatim>\<open>while\<close> loop updates.\<close>

record alloc_state =
  st_rng :: rng
  current_dt :: datetime
  remaining_seconds :: int
  payloads :: "(string \<times> payload) list"

text \<open>One pass through the body of the loop (lines 382 to 396).\<close>

definition alloc_step ::
  "string list \<Rightarrow> int list \<Rightarrow> int \<Rightarrow> alloc_state \<Rightarrow> py_error + alloc_state" where
  "alloc_step issue_keys issue_weights max_chunk_seconds s =
     (let max_allowed = min max_chunk_seconds (remaining_seconds s);
          max_hours = max_allowed div hour_seconds
      in case randint (st_rng s) 1 max_hours of
           Inl e \<Rightarrow> Inl e
         | Inr (chunk_hours, g1) \<Rightarrow>
             (let chunk_seconds = chunk_hours * hour_seconds
              in case choices g1 issue_keys issue_weights of
                   Inl e \<Rightarrow> Inl e
                 | Inr (issue_key, g2) \<Rightarrow>
                     (let p = \<lparr>comment = ''Work on task '' @ issue_key,
                                started = current_dt s,
                                timeSpentSeconds = chunk_seconds\<rparr>
                      in case datetime_add_seconds (current_dt s) chunk_seconds of
                           Inl e \<Rightarrow> Inl e
                         | Inr next_dt \<Rightarrow>
                             Inr \<lparr>st_rng = g2,
                                  current_dt = next_dt,
                                  remaining_seconds = remaining_seconds s - chunk_seconds,
                                  payloads = payloads s @ [(issue_key, p)]\<rparr>)))"

function alloc_loop ::
  "string list \<Rightarrow> int list \<Rightarrow> int \<Rightarrow> alloc_state \<Rightarrow> py_error + (string \<times> payload) list" where
  "alloc_loop issue_keys issue_weights max_chunk_seconds s =
     (if remaining_seconds s \<ge> hour_seconds
      then (case alloc_step issue_keys issue_weights max_chunk_seconds s of
              Inl e \<Rightarrow> Inl e
            | Inr s' \<Rightarrow> alloc_loop issue_keys issue_weights max_chunk_seconds s')
      else Inr (payloads s))"
  by pat_completeness auto
termination
proof (relation "measure (\<lambda>(ks, ws, mc, s). nat (remaining_seconds s))")
  show "wf (measure (\<lambda>(ks, ws, mc, s). nat (remaining_seconds s)))" by simp
next
  fix issue_keys issue_weights max_chunk_seconds s s'
  assume guard: "hour_seconds \<le> remaining_seconds s"
    and step: "alloc_step issue_keys issue_weights max_chunk_seconds s = Inr s'"
  from step obtain ch g1 where
    r: "randint (st_rng s) 1
          (min max_chunk_seconds (remaining_seconds s) div hour_seconds) = Inr (ch, g1)"
    and rem: "remaining_seconds s' = remaining_seconds s - ch * hour_seconds"
    by (auto simp: alloc_step_def Let_def split: sum.splits prod.splits)
  from r have "1 \<le> ch"
    by (auto simp: randint_def Let_def rng_next_def split: if_splits)
  with rem guard show "((issue_keys, issue_weights, max_chunk_seconds, s'),
              (issue_keys, issue_weights, max_chunk_seconds, s))
             \<in> measure (\<lambda>(ks, ws, mc, s). nat (remaining_seconds s))"
    by (simp add: hour_seconds_def)
qed

declare alloc_loop.simps [simp del]

definition build_day_payloads ::
  "date \<Rightarrow> issue list \<Rightarrow> int \<Rightarrow> int \<Rightarrow> rng \<Rightarrow> py_error + (string \<times> payload) list" where
  "build_day_payloads d issues remaining max_task_hours g =
     (let max_chunk_seconds = max_task_hours * hour_seconds;
          issue_keys = map key issues;
          issue_weights = map weight issues;
          start_dt = replace_tzinfo (datetime_combine d 10 0 0) (3 * 3600)
      in alloc_loop issue_keys issue_weights max_chunk_seconds
           \<lparr>st_rng = g, current_dt = start_dt, remaining_seconds = remaining, payloads = []\<rparr>)"


text \<open>
  The same loop with a bound on the number of passes: \<open>None\<close> when the bound is used up
  before the loop has left (by returning or by raising). It serves to count the
  iterations of \<open>alloc_loop\<close>.
\<close>

fun alloc_iter ::
  "nat \<Rightarrow> string list \<Rightarrow> int list \<Rightarrow> int \<Rightarrow> alloc_state
     \<Rightarrow> (py_error + (string \<times> payload) list) option" where
  "alloc_iter 0 issue_keys issue_weights max_chunk_seconds s =
     (if remaining_seconds s \<ge> hour_seconds then None else Some (Inr (payloads s)))"
| "alloc_iter (Suc n) issue_keys issue_weights max_chunk_seconds s =
     (if remaining_seconds s \<ge> hour_seconds
      then (case alloc_step issue_keys issue_weights max_chunk_seconds s of
              Inl e \<Rightarrow> Some (Inl e)
            | Inr s' \<Rightarrow> alloc_iter n issue_keys issue_weights max_chunk_seconds s')
      else Some (Inr (payloads s)))"

definition build_day_payloads_bounded ::
  "nat \<Rightarrow> date \<Rightarrow> issue list \<Rightarrow> int \<Rightarrow> int \<Rightarrow> rng
     \<Rightarrow> (py_error + (string \<times> payload) list) option" where
  "build_day_payloads_bounded n d issues remaining max_task_hours g =
     (let max_chunk_seconds = max_task_hours * hour_seconds;
          issue_keys = map key issues;
          issue_weights = map weight issues;
          start_dt = replace_tzinfo (datetime_combine d 10 0 0) (3 * 3600)
      in alloc_iter n issue_keys issue_weights max_chunk_seconds
           \<lparr>st_rng = g, current_dt = start_dt, remaining_seconds = remaining, payloads = []\<rparr>)"

section \<open>The per-day step of \<^verbatim>\<open>main\<close>\<close>



section \<open>\<^verbatim>\<open>working_days\<close>\<close>

function working_days_loop :: "date \<Rightarrow> date \<Rightarrow> date list \<Rightarrow> py_error + date list" where
  "working_days_loop end_date current days =
     (if date_le current end_date
      then (let days' = (if weekday current < 5 then days @ [current] else days)
            in case date_add_day current of
                 Inl e \<Rightarrow> Inl e
               | Inr next_day \<Rightarrow> working_days_loop end_date next_day days')
      else Inr days)"
  by pat_completeness auto
termination
proof (relation "measures
    [\<lambda>(e, c, ds). nat (date_year e + 1 - date_year c),
     \<lambda>(e, c, ds). nat (12 - date_month c),
     \<lambda>(e, c, ds). nat (days_in_month (date_year c) (date_month c) - date_day c)]")
  show "wf (measures
    [\<lambda>(e, c, ds). nat (date_year e + 1 - date_year c),
     \<lambda>(e, c, ds). nat (12 - date_month c),
     \<lambda>(e, c, ds). nat (days_in_month (date_year c) (date_month c) - date_day c)])"
    by simp
next
  fix end_date current :: date and days days' :: "date list" and next_day :: date
  assume le: "date_le current end_date"
    and nxt: "date_add_day current = Inr next_day"
  from le have "date_year current \<le> date_year end_date"
    by (auto simp: date_le_def)
  with nxt show "((end_date, next_day, days'), (end_date, current, days)) \<in> measures
    [\<lambda>(e, c, ds). nat (date_year e + 1 - date_year c),
     \<lambda>(e, c, ds). nat (12 - date_month c),
     \<lambda>(e, c, ds). nat (days_in_month (date_year c) (date_month c) - date_day c)]"
    by (auto simp: date_add_day_def Let_def split: if_splits)
qed

declare working_days_loop.simps [simp del]

definition working_days :: "date \<Rightarrow> date \<Rightarrow> py_error + date list" where
  "working_days start_date end_date = working_days_loop end_date start_date []"

section \<open>\<^verbatim>\<open>subtract_one_month\<close>\<close>

text \<open>
  \<^verbatim>\<open>calendar.weekday\<close> moves a year outside \<open>[MINYEAR, MAXYEAR]\<close> into the same place of
  the 400-year cycle before it builds the date.
\<close>

definition calendar_weekday :: "int \<Rightarrow> int \<Rightarrow> int \<Rightarrow> py_error + int" where
  "calendar_weekday y m d =
     (let y' = (if \<not> (MINYEAR \<le> y \<and> y \<le> MAXYEAR) then 2000 + y mod 400 else y)
      in case date_new y' m d of Inl e \<Rightarrow> Inl e | Inr r \<Rightarrow> Inr (weekday r))"

text \<open>
  \<^verbatim>\<open>calendar.monthrange(year, month)\<close>: the weekday of the first of the month and the
  number of its days. \<^verbatim>\<open>IllegalMonthError\<close> is a \<^verbatim>\<open>ValueError\<close>.
\<close>

definition monthrange :: "int \<Rightarrow> int \<Rightarrow> py_error + (int \<times> int)" where
  "monthrange y m =
     (if \<not> (1 \<le> m \<and> m \<le> 12) then Inl ValueError
      else (case calendar_weekday y m 1 of
              Inl e \<Rightarrow> Inl e
            | Inr day1 \<Rightarrow>
                (let ndays = mdays m + (if m = 2 \<and> isleap y then 1 else 0)
                 in Inr (day1, ndays))))"

definition subtract_one_month :: "date \<Rightarrow> py_error + date" where
  "subtract_one_month today =
     (let year = date_year today;
          month = date_month today - 1;
          (year, month) = (if month = 0 then (year - 1, 12) else (year, month))
      in case monthrange year month of
           Inl e \<Rightarrow> Inl e
         | Inr mr \<Rightarrow>
             (let day = min (date_day today) (snd mr)
              in date_new year month day))"

section \<open>Preconditions and runs\<close>

text \<open>
  The preconditions that the specification gives for the allocator: a budget that is not
  negative, a per-entry maximum of at least one hour, and a non-empty list of issues with
  positive weights.
\<close>

definition preconditions :: "issue list \<Rightarrow> int \<Rightarrow> int \<Rightarrow> bool" where
  "preconditions issues remaining max_task_hours =
     (0 \<le> remaining \<and> 1 \<le> max_task_hours \<and> issues \<noteq> [] \<and>
      list_all (\<lambda>i. 0 < weight i) issues)"

text \<open>
  The limits of the standard library within which a call does not raise: the clock,
  started at 10:00 on the day and advanced by the whole hours of the budget, stays within
  9999-12-31; the total weight converts to a float.
\<close>

definition clock_in_range :: "date \<Rightarrow> int \<Rightarrow> bool" where
  "clock_in_range d remaining =
     (toordinal d * 86400 + 10 * 3600 + 3600 * (remaining div 3600)
        < (MAXORDINAL + 1) * 86400)"

definition weights_in_range :: "issue list \<Rightarrow> bool" where
  "weights_in_range issues = (sum_list (map weight issues) < float_overflow)"

text \<open>
  \<open>emitted mc t r es\<close>: the entries \<open>es\<close> are what a run of the loop appends when it is
  entered with the clock at \<open>t\<close> and the budget \<open>r\<close>, the cap being \<open>mc\<close> seconds.
\<close>

fun emitted :: "int \<Rightarrow> datetime \<Rightarrow> int \<Rightarrow> (string \<times> payload) list \<Rightarrow> bool" where
  "emitted mc t r [] = (r < 3600)"
| "emitted mc t r (e # es) =
     (3600 \<le> r \<and> 3600 dvd timeSpentSeconds (snd e) \<and> 3600 \<le> timeSpentSeconds (snd e) \<and>
      timeSpentSeconds (snd e) \<le> mc \<and> timeSpentSeconds (snd e) \<le> r \<and>
      comment (snd e) = ''Work on task '' @ fst e \<and> started (snd e) = t \<and>
      (case datetime_add_seconds t (timeSpentSeconds (snd e)) of
         Inl err \<Rightarrow> False
       | Inr t' \<Rightarrow> emitted mc t' (r - timeSpentSeconds (snd e)) es))"

section \<open>The library operations\<close>

lemma randint_bounds:
  assumes "randint g a b = Inr (r, g')"
  shows "a \<le> r \<and> r \<le> b"
proof -
  from assms have ab: "a \<le> b"
    by (auto simp: randint_def split: if_splits)
  with assms have r: "a + int (g 0) mod (b - a + 1) = r"
    by (simp add: randint_def rng_next_def)
  from ab have "0 < b - a + 1" by simp
  then have "0 \<le> int (g 0) mod (b - a + 1)" and "int (g 0) mod (b - a + 1) < b - a + 1"
    by (rule pos_mod_sign, rule pos_mod_bound)
  with r show ?thesis by linarith
qed

lemma randint_returns:
  assumes "a \<le> b"
  shows "\<exists>r g'. randint g a b = Inr (r, g')"
  using assms by (simp add: randint_def rng_next_def)

lemma length_accumulate: "length (accumulate a ws) = length ws"
  by (induction ws arbitrary: a) simp_all

lemma last_accumulate: "ws \<noteq> [] \<Longrightarrow> last (accumulate a ws) = a + sum_list ws"
proof (induction ws arbitrary: a)
  case Nil
  then show ?case by simp
next
  case (Cons w ws)
  show ?case
  proof (cases ws)
    case Nil
    then show ?thesis by simp
  next
    case (Cons v vs)
    then have "accumulate (a + w) ws \<noteq> []" by simp
    moreover have "last (accumulate (a + w) ws) = a + w + sum_list ws"
      using Cons.IH [of "a + w"] Cons by simp
    ultimately show ?thesis by simp
  qed
qed

lemma choices_returns:
  assumes "ks \<noteq> []" and "length ws = length ks"
    and "0 < sum_list ws" and "sum_list ws < float_overflow"
  shows "\<exists>k g'. choices g ks ws = Inr (k, g')"
proof -
  from assms have ne: "ws \<noteq> []" by auto
  then have acc: "accumulate 0 ws \<noteq> []" by (cases ws) simp_all
  have "last (accumulate 0 ws) = sum_list ws"
    using last_accumulate [OF ne, of 0] by simp
  with assms acc show ?thesis
    by (simp add: choices_def Let_def length_accumulate rng_next_def)
qed



lemma datetime_add_seconds_Inr:
  assumes "datetime_add_seconds dt s = Inr dt'"
  shows "dt_ordinal dt' * 86400 + dt_second dt' = dt_ordinal dt * 86400 + dt_second dt + s"
    and "dt_utcoffset dt' = dt_utcoffset dt"
    and "1 \<le> dt_ordinal dt'" and "dt_ordinal dt' \<le> MAXORDINAL"
    and "0 \<le> dt_second dt'" and "dt_second dt' < 86400"
proof -
  define sec where "sec = dt_second dt + s mod 86400"
  from assms have o: "dt_ordinal dt' = dt_ordinal dt + s div 86400 + sec div 86400"
    and sd: "dt_second dt' = sec mod 86400"
    and off: "dt_utcoffset dt' = dt_utcoffset dt"
    and rng: "1 \<le> dt_ordinal dt'" "dt_ordinal dt' \<le> MAXORDINAL"
    by (auto simp: datetime_add_seconds_def Let_def sec_def split: if_splits)
  have "sec = sec div 86400 * 86400 + sec mod 86400" by simp
  moreover have "s = s div 86400 * 86400 + s mod 86400" by simp
  ultimately show "dt_ordinal dt' * 86400 + dt_second dt' = dt_ordinal dt * 86400 + dt_second dt + s"
    unfolding o sd sec_def by (simp add: algebra_simps)
  show "dt_utcoffset dt' = dt_utcoffset dt" by (rule off)
  show "1 \<le> dt_ordinal dt'" "dt_ordinal dt' \<le> MAXORDINAL" by (rule rng)+
  show "0 \<le> dt_second dt'" "dt_second dt' < 86400" unfolding sd by simp_all
qed

lemma datetime_add_seconds_utc:
  assumes "datetime_add_seconds dt s = Inr dt'"
  shows "utc_seconds dt' = utc_seconds dt + s"
  using datetime_add_seconds_Inr(1,2) [OF assms] by (simp add: utc_seconds_def)

lemma datetime_add_seconds_returns:
  assumes "0 \<le> s" and "1 \<le> dt_ordinal dt" and "0 \<le> dt_second dt"
    and "dt_ordinal dt * 86400 + dt_second dt + s < (MAXORDINAL + 1) * 86400"
  shows "\<exists>dt'. datetime_add_seconds dt s = Inr dt'"
proof -
  define sec where "sec = dt_second dt + s mod 86400"
  define ord where "ord = dt_ordinal dt + s div 86400 + sec div 86400"
  have s0: "0 \<le> s div 86400" using assms(1) by (simp add: pos_imp_zdiv_nonneg_iff)
  have sec0: "0 \<le> sec" using assms(3) by (simp add: sec_def)
  then have secd: "0 \<le> sec div 86400" by (simp add: pos_imp_zdiv_nonneg_iff)
  have tot: "ord * 86400 + sec mod 86400 = dt_ordinal dt * 86400 + dt_second dt + s"
  proof -
    have "sec = sec div 86400 * 86400 + sec mod 86400" by simp
    moreover have "s = s div 86400 * 86400 + s mod 86400" by simp
    ultimately show ?thesis unfolding ord_def sec_def by (simp add: algebra_simps)
  qed
  have "0 \<le> sec mod 86400" by simp
  with tot assms(4) have "ord * 86400 < (MAXORDINAL + 1) * 86400" by linarith
  then have hi: "ord \<le> MAXORDINAL" by simp
  have lo: "1 \<le> ord" using assms(2) s0 secd by (simp add: ord_def)
  have "s div 86400 \<le> ord" using assms(2) secd by (simp add: ord_def)
  with hi have "s div 86400 \<le> 999999999" by (simp add: MAXORDINAL_def)
  with s0 have "\<not> \<bar>s div 86400\<bar> > 999999999" by simp
  with lo hi show ?thesis
    by (simp add: datetime_add_seconds_def Let_def sec_def [symmetric] ord_def [symmetric])
qed

section \<open>One pass and the whole loop\<close>

lemma alloc_step_Inr:
  assumes "alloc_step ks ws mc s = Inr s'"
  obtains ch k where "1 \<le> ch" and "ch \<le> min mc (remaining_seconds s) div 3600"
    and "remaining_seconds s' = remaining_seconds s - ch * 3600"
    and "payloads s' = payloads s @ [(k, \<lparr>comment = ''Work on task '' @ k,
           started = current_dt s, timeSpentSeconds = ch * 3600\<rparr>)]"
    and "datetime_add_seconds (current_dt s) (ch * 3600) = Inr (current_dt s')"
proof -
  from assms obtain ch g1 k g2 t where
    r: "randint (st_rng s) 1 (min mc (remaining_seconds s) div 3600) = Inr (ch, g1)"
    and c: "choices g1 ks ws = Inr (k, g2)"
    and a: "datetime_add_seconds (current_dt s) (ch * 3600) = Inr t"
    and s': "s' = \<lparr>st_rng = g2, current_dt = t,
                   remaining_seconds = remaining_seconds s - ch * 3600,
                   payloads = payloads s @ [(k, \<lparr>comment = ''Work on task '' @ k,
                     started = current_dt s, timeSpentSeconds = ch * 3600\<rparr>)]\<rparr>"
    by (auto simp: alloc_step_def Let_def hour_seconds_def split: sum.splits prod.splits)
  from randint_bounds [OF r] have "1 \<le> ch" "ch \<le> min mc (remaining_seconds s) div 3600"
    by simp_all
  moreover from s' have "remaining_seconds s' = remaining_seconds s - ch * 3600"
    "payloads s' = payloads s @ [(k, \<lparr>comment = ''Work on task '' @ k,
           started = current_dt s, timeSpentSeconds = ch * 3600\<rparr>)]"
    "current_dt s' = t" by simp_all
  ultimately show ?thesis using a that by simp
qed

lemma alloc_step_returns:
  assumes "3600 \<le> remaining_seconds s" and "3600 \<le> mc"
    and "ks \<noteq> []" and "length ws = length ks"
    and "0 < sum_list ws" and "sum_list ws < float_overflow"
    and "1 \<le> dt_ordinal (current_dt s)" and "0 \<le> dt_second (current_dt s)"
    and "dt_ordinal (current_dt s) * 86400 + dt_second (current_dt s)
           + 3600 * (remaining_seconds s div 3600) < (MAXORDINAL + 1) * 86400"
  shows "\<exists>s'. alloc_step ks ws mc s = Inr s'"
proof -
  define m where "m = min mc (remaining_seconds s)"
  have "3600 \<le> m" using assms(1,2) by (simp add: m_def)
  then have "3600 div 3600 \<le> m div 3600" by (rule zdiv_mono1) simp
  then have "1 \<le> min mc (remaining_seconds s) div 3600" by (simp add: m_def)
  from randint_returns [OF this] obtain ch g1 where
    r: "randint (st_rng s) 1 (min mc (remaining_seconds s) div 3600) = Inr (ch, g1)"
    by blast
  from choices_returns [OF assms(3-6)] obtain k g2 where
    c: "choices g1 ks ws = Inr (k, g2)" by blast
  from randint_bounds [OF r] have ch: "1 \<le> ch" "ch \<le> min mc (remaining_seconds s) div 3600"
    by simp_all
  have "min mc (remaining_seconds s) div 3600 \<le> remaining_seconds s div 3600"
    by (rule zdiv_mono1) simp_all
  with ch have "ch * 3600 \<le> 3600 * (remaining_seconds s div 3600)" by simp
  with assms(9) have "dt_ordinal (current_dt s) * 86400 + dt_second (current_dt s) + ch * 3600
      < (MAXORDINAL + 1) * 86400" by linarith
  moreover have "0 \<le> ch * 3600" using ch by simp
  ultimately obtain t where "datetime_add_seconds (current_dt s) (ch * 3600) = Inr t"
    using datetime_add_seconds_returns assms(7,8) by blast
  with r c show ?thesis
    by (simp add: alloc_step_def Let_def hour_seconds_def)
qed

lemma alloc_loop_stop:
  "remaining_seconds s < 3600 \<Longrightarrow> alloc_loop ks ws mc s = Inr (payloads s)"
  by (simp add: hour_seconds_def alloc_loop.simps [of ks ws mc s])

lemma alloc_loop_step:
  "3600 \<le> remaining_seconds s \<Longrightarrow> alloc_step ks ws mc s = Inr s' \<Longrightarrow>
   alloc_loop ks ws mc s = alloc_loop ks ws mc s'"
  by (simp add: hour_seconds_def alloc_loop.simps [of ks ws mc s])

lemma alloc_loop_error:
  "3600 \<le> remaining_seconds s \<Longrightarrow> alloc_step ks ws mc s = Inl e \<Longrightarrow>
   alloc_loop ks ws mc s = Inl e"
  by (simp add: hour_seconds_def alloc_loop.simps [of ks ws mc s])

lemma alloc_loop_Inr_induct [consumes 1, case_names stop step]:
  assumes run: "alloc_loop ks ws mc s = Inr ps"
    and stop: "\<And>s. remaining_seconds s < 3600 \<Longrightarrow> P s (payloads s)"
    and step: "\<And>s s' ps. 3600 \<le> remaining_seconds s \<Longrightarrow> alloc_step ks ws mc s = Inr s' \<Longrightarrow>
                 alloc_loop ks ws mc s' = Inr ps \<Longrightarrow> P s' ps \<Longrightarrow> P s ps"
  shows "P s ps"
  using run
proof (induction "nat (remaining_seconds s)" arbitrary: s rule: less_induct)
  case less
  show ?case
  proof (cases "3600 \<le> remaining_seconds s")
    case False
    then have "alloc_loop ks ws mc s = Inr (payloads s)" by (simp add: alloc_loop_stop)
    with less.prems have "ps = payloads s" by simp
    with False stop show ?thesis by simp
  next
    case True
    show ?thesis
    proof (cases "alloc_step ks ws mc s")
      case (Inl e)
      with True less.prems show ?thesis by (simp add: alloc_loop_error)
    next
      case (Inr s')
      with True less.prems have run': "alloc_loop ks ws mc s' = Inr ps"
        by (simp add: alloc_loop_step)
      from Inr have "remaining_seconds s' < remaining_seconds s"
        by (rule alloc_step_Inr) simp
      with True have "nat (remaining_seconds s') < nat (remaining_seconds s)" by simp
      then have "P s' ps" using run' by (rule less.hyps)
      with True Inr run' show ?thesis by (rule step)
    qed
  qed
qed

lemma alloc_loop_emitted:
  assumes "alloc_loop ks ws mc s = Inr ps"
  shows "\<exists>es. ps = payloads s @ es \<and> emitted mc (current_dt s) (remaining_seconds s) es"
  using assms
proof (induction rule: alloc_loop_Inr_induct)
  case (stop s)
  then show ?case by simp
next
  case (step s s' ps)
  from step.IH obtain es where ps: "ps = payloads s' @ es"
    and es: "emitted mc (current_dt s') (remaining_seconds s') es" by blast
  from step.hyps(2) obtain ch k where ch: "1 \<le> ch" "ch \<le> min mc (remaining_seconds s) div 3600"
    and rem: "remaining_seconds s' = remaining_seconds s - ch * 3600"
    and pay: "payloads s' = payloads s @ [(k, \<lparr>comment = ''Work on task '' @ k,
           started = current_dt s, timeSpentSeconds = ch * 3600\<rparr>)]"
    and add: "datetime_add_seconds (current_dt s) (ch * 3600) = Inr (current_dt s')"
    by (rule alloc_step_Inr)
  define m where "m = min mc (remaining_seconds s)"
  have "m div 3600 * 3600 \<le> m"
    using div_mult_mod_eq [of m 3600] pos_mod_sign [of 3600 m] by linarith
  moreover have "ch * 3600 \<le> m div 3600 * 3600" using ch(2) by (simp add: m_def)
  ultimately have "ch * 3600 \<le> m" by linarith
  then have le: "ch * 3600 \<le> mc" "ch * 3600 \<le> remaining_seconds s" by (simp_all add: m_def)
  let ?e = "(k, \<lparr>comment = ''Work on task '' @ k,
           started = current_dt s, timeSpentSeconds = ch * 3600\<rparr>)"
  have "emitted mc (current_dt s) (remaining_seconds s) (?e # es)"
    using step.hyps(1) ch(1) le add es rem by simp
  moreover have "ps = payloads s @ (?e # es)" using ps pay by simp
  ultimately show ?case by blast
qed

lemma emitted_durations:
  assumes "emitted mc t r es" and "e \<in> set es"
  shows "0 < timeSpentSeconds (snd e) \<and> 3600 dvd timeSpentSeconds (snd e)
         \<and> timeSpentSeconds (snd e) \<le> mc"
  using assms
proof (induction es arbitrary: t r)
  case Nil
  then show ?case by simp
next
  case (Cons a es)
  show ?case
  proof (cases "e = a")
    case True
    with Cons.prems(1) show ?thesis by simp
  next
    case False
    with Cons.prems(2) have mem: "e \<in> set es" by simp
    from Cons.prems(1) obtain t' where
      "emitted mc t' (r - timeSpentSeconds (snd a)) es"
      by (auto split: sum.splits)
    then show ?thesis using mem by (rule Cons.IH)
  qed
qed

lemma emitted_sum:
  assumes "emitted mc t r es" and "0 \<le> r"
  shows "(\<Sum>e\<leftarrow>es. timeSpentSeconds (snd e)) = 3600 * (r div 3600)"
  using assms
proof (induction es arbitrary: t r)
  case Nil
  then show ?case by simp
next
  case (Cons a es)
  define c where "c = timeSpentSeconds (snd a)"
  from Cons.prems(1) obtain t' where
    rest: "emitted mc t' (r - c) es" and dv: "3600 dvd c" and le: "c \<le> r"
    by (auto simp: c_def split: sum.splits)
  from le have "0 \<le> r - c" by simp
  with rest have "(\<Sum>e\<leftarrow>es. timeSpentSeconds (snd e)) = 3600 * ((r - c) div 3600)"
    by (rule Cons.IH)
  moreover from dv obtain q where q: "c = 3600 * q" by (auto elim: dvdE)
  have "(r - c) div 3600 = r div 3600 - q"
  proof -
    have "r - c = r + (- q) * 3600" using q by simp
    then have "(r - c) div 3600 = (r + (- q) * 3600) div 3600" by simp
    also have "\<dots> = - q + r div 3600" by (rule div_mult_self1) simp
    finally show ?thesis by simp
  qed
  ultimately show ?case using q by (simp add: c_def [symmetric] algebra_simps)
qed

lemma emitted_length:
  assumes "emitted mc t r es"
  shows "int (length es) \<le> max 0 (r div 3600)"
  using assms
proof (induction es arbitrary: t r)
  case Nil
  then show ?case by simp
next
  case (Cons a es)
  define c where "c = timeSpentSeconds (snd a)"
  from Cons.prems(1) obtain t' where
    rest: "emitted mc t' (r - c) es" and c: "3600 \<le> c" "c \<le> r"
    by (auto simp: c_def split: sum.splits)
  from rest have IH: "int (length es) \<le> max 0 ((r - c) div 3600)" by (rule Cons.IH)
  have "(r - c) div 3600 \<le> (r - 3600) div 3600" using c(1) by (intro zdiv_mono1) simp_all
  also have "\<dots> = r div 3600 - 1"
  proof -
    have "(r + (- 1) * 3600) div 3600 = - 1 + r div 3600" by (rule div_mult_self1) simp
    then show ?thesis by simp
  qed
  finally have 1: "(r - c) div 3600 \<le> r div 3600 - 1" .
  have "3600 div 3600 \<le> r div 3600" using c by (intro zdiv_mono1) simp_all
  then have 2: "1 \<le> r div 3600" by simp
  from IH 1 2 show ?case by simp
qed

lemma emitted_hd:
  assumes "emitted mc t r es" and "es \<noteq> []"
  shows "started (snd (hd es)) = t"
  using assms by (cases es) simp_all

lemma emitted_tail:
  assumes "emitted mc t r (a # es)"
  obtains t' where "datetime_add_seconds t (timeSpentSeconds (snd a)) = Inr t'"
    and "emitted mc t' (r - timeSpentSeconds (snd a)) es"
    and "started (snd a) = t" and "3600 \<le> timeSpentSeconds (snd a)"
  using assms by (auto split: sum.splits)

lemma emitted_tiles:
  assumes "emitted mc t r es" and "Suc i < length es"
  shows "datetime_add_seconds (started (snd (es ! i))) (timeSpentSeconds (snd (es ! i)))
         = Inr (started (snd (es ! Suc i)))"
  using assms
proof (induction es arbitrary: t r i)
  case Nil
  then show ?case by simp
next
  case (Cons a es)
  from Cons.prems(1) obtain t' where
    add: "datetime_add_seconds t (timeSpentSeconds (snd a)) = Inr t'"
    and rest: "emitted mc t' (r - timeSpentSeconds (snd a)) es"
    and st: "started (snd a) = t"
    by (rule emitted_tail)
  show ?case
  proof (cases i)
    case 0
    with Cons.prems(2) have "es \<noteq> []" by auto
    with rest have "started (snd (hd es)) = t'" by (rule emitted_hd)
    moreover from \<open>es \<noteq> []\<close> have "hd es = es ! 0" by (simp add: hd_conv_nth)
    ultimately show ?thesis using 0 add st by simp
  next
    case (Suc j)
    with Cons.prems(2) have "Suc j < length es" by simp
    with rest have "datetime_add_seconds (started (snd (es ! j))) (timeSpentSeconds (snd (es ! j)))
         = Inr (started (snd (es ! Suc j)))" by (rule Cons.IH)
    with Suc show ?thesis by simp
  qed
qed

lemma emitted_offsets:
  assumes "emitted mc t r es" and "e \<in> set es"
  shows "dt_utcoffset (started (snd e)) = dt_utcoffset t"
  using assms
proof (induction es arbitrary: t r)
  case Nil
  then show ?case by simp
next
  case (Cons a es)
  from Cons.prems(1) obtain t' where
    add: "datetime_add_seconds t (timeSpentSeconds (snd a)) = Inr t'"
    and rest: "emitted mc t' (r - timeSpentSeconds (snd a)) es"
    and st: "started (snd a) = t"
    by (rule emitted_tail)
  show ?case
  proof (cases "e = a")
    case True
    with st show ?thesis by simp
  next
    case False
    with Cons.prems(2) have "e \<in> set es" by simp
    with rest have "dt_utcoffset (started (snd e)) = dt_utcoffset t'" by (rule Cons.IH)
    with datetime_add_seconds_Inr(2) [OF add] show ?thesis by simp
  qed
qed

lemma emitted_after:
  assumes "emitted mc t r es" and "e \<in> set es"
  shows "utc_seconds t \<le> utc_seconds (started (snd e))"
  using assms
proof (induction es arbitrary: t r)
  case Nil
  then show ?case by simp
next
  case (Cons a es)
  from Cons.prems(1) obtain t' where
    add: "datetime_add_seconds t (timeSpentSeconds (snd a)) = Inr t'"
    and rest: "emitted mc t' (r - timeSpentSeconds (snd a)) es"
    and st: "started (snd a) = t" and pos: "3600 \<le> timeSpentSeconds (snd a)"
    by (rule emitted_tail)
  show ?case
  proof (cases "e = a")
    case True
    with st show ?thesis by simp
  next
    case False
    with Cons.prems(2) have "e \<in> set es" by simp
    with rest have "utc_seconds t' \<le> utc_seconds (started (snd e))" by (rule Cons.IH)
    with datetime_add_seconds_utc [OF add] pos show ?thesis by simp
  qed
qed

lemma emitted_increasing:
  assumes "emitted mc t r es"
  shows "sorted_wrt (\<lambda>a b. utc_seconds (started (snd a)) < utc_seconds (started (snd b))) es"
  using assms
proof (induction es arbitrary: t r)
  case Nil
  then show ?case by simp
next
  case (Cons a es)
  from Cons.prems(1) obtain t' where
    add: "datetime_add_seconds t (timeSpentSeconds (snd a)) = Inr t'"
    and rest: "emitted mc t' (r - timeSpentSeconds (snd a)) es"
    and st: "started (snd a) = t" and pos: "3600 \<le> timeSpentSeconds (snd a)"
    by (rule emitted_tail)
  have "utc_seconds (started (snd a)) < utc_seconds (started (snd e))" if "e \<in> set es" for e
  proof -
    from rest that have "utc_seconds t' \<le> utc_seconds (started (snd e))" by (rule emitted_after)
    with datetime_add_seconds_utc [OF add] pos st show ?thesis by simp
  qed
  moreover from rest have
    "sorted_wrt (\<lambda>a b. utc_seconds (started (snd a)) < utc_seconds (started (snd b))) es"
    by (rule Cons.IH)
  ultimately show ?case by simp
qed

lemma alloc_loop_returns:
  assumes "3600 \<le> mc" and "ks \<noteq> []" and "length ws = length ks"
    and "0 < sum_list ws" and "sum_list ws < float_overflow"
    and "1 \<le> dt_ordinal (current_dt s)" and "0 \<le> dt_second (current_dt s)"
    and "dt_ordinal (current_dt s) * 86400 + dt_second (current_dt s)
           + 3600 * (remaining_seconds s div 3600) < (MAXORDINAL + 1) * 86400"
  shows "\<exists>ps. alloc_loop ks ws mc s = Inr ps"
  using assms(6-8)
proof (induction "nat (remaining_seconds s)" arbitrary: s rule: less_induct)
  case less
  show ?case
  proof (cases "3600 \<le> remaining_seconds s")
    case False
    then show ?thesis by (simp add: alloc_loop_stop)
  next
    case True
    from alloc_step_returns [OF True assms(1-5) less.prems]
    obtain s' where step: "alloc_step ks ws mc s = Inr s'" by blast
    from step obtain ch k where ch: "1 \<le> ch"
      and rem: "remaining_seconds s' = remaining_seconds s - ch * 3600"
      and add: "datetime_add_seconds (current_dt s) (ch * 3600) = Inr (current_dt s')"
      by (rule alloc_step_Inr)
    have lt: "nat (remaining_seconds s') < nat (remaining_seconds s)"
      using True ch rem by simp
    have "(remaining_seconds s + (- ch) * 3600) div 3600 = - ch + remaining_seconds s div 3600"
      by (rule div_mult_self1) simp
    then have d: "remaining_seconds s' div 3600 = remaining_seconds s div 3600 - ch"
      using rem by simp
    have "dt_ordinal (current_dt s') * 86400 + dt_second (current_dt s')
           + 3600 * (remaining_seconds s' div 3600) < (MAXORDINAL + 1) * 86400"
      using datetime_add_seconds_Inr(1) [OF add] d less.prems(3) by (simp add: algebra_simps)
    with lt datetime_add_seconds_Inr(3,5) [OF add]
    have "\<exists>ps. alloc_loop ks ws mc s' = Inr ps" by (intro less.hyps)
    with True step show ?thesis by (simp add: alloc_loop_step)
  qed
qed

lemma alloc_iter_enough:
  assumes "remaining_seconds s div 3600 \<le> int n"
  shows "alloc_iter n ks ws mc s = Some (alloc_loop ks ws mc s)"
  using assms
proof (induction n arbitrary: s)
  case 0
  then have "remaining_seconds s div 3600 \<le> 0" by simp
  then have "remaining_seconds s < 3600"
    using div_mult_mod_eq [of "remaining_seconds s" 3600] pos_mod_bound [of 3600 "remaining_seconds s"]
    by (cases "remaining_seconds s < 3600") (simp_all add: pos_imp_zdiv_pos_iff)
  then show ?case by (simp add: alloc_loop_stop hour_seconds_def)
next
  case (Suc n)
  show ?case
  proof (cases "3600 \<le> remaining_seconds s")
    case False
    then show ?thesis by (simp add: alloc_loop_stop hour_seconds_def)
  next
    case True
    show ?thesis
    proof (cases "alloc_step ks ws mc s")
      case (Inl e)
      with True show ?thesis by (simp add: alloc_loop_error hour_seconds_def)
    next
      case (Inr s')
      from Inr obtain ch where ch: "1 \<le> ch"
        and rem: "remaining_seconds s' = remaining_seconds s - ch * 3600"
        by (rule alloc_step_Inr)
      have "(remaining_seconds s + (- ch) * 3600) div 3600 = - ch + remaining_seconds s div 3600"
        by (rule div_mult_self1) simp
      then have "remaining_seconds s' div 3600 = remaining_seconds s div 3600 - ch"
        using rem by simp
      with ch Suc.prems have "remaining_seconds s' div 3600 \<le> int n" by simp
      then have "alloc_iter n ks ws mc s' = Some (alloc_loop ks ws mc s')" by (rule Suc.IH)
      with True Inr show ?thesis by (simp add: alloc_loop_step hour_seconds_def)
    qed
  qed
qed

section \<open>Dates\<close>

lemma days_in_month_bounds: "28 \<le> days_in_month y m \<and> days_in_month y m \<le> 31"
  by (simp add: days_in_month_def mdays_def)

lemma date_le_trans: "date_le a b \<Longrightarrow> date_le b c \<Longrightarrow> date_le a c"
  by (auto simp: date_le_def)

lemma date_less_le_trans: "date_less a b \<Longrightarrow> date_le b c \<Longrightarrow> date_less a c"
  by (auto simp: date_le_def date_less_def)

lemma date_eq_iff:
  "a = (b::date) \<longleftrightarrow>
     date_year a = date_year b \<and> date_month a = date_month b \<and> date_day a = date_day b"
  by (cases a, cases b) auto

lemma date_le_iff: "date_le a b \<longleftrightarrow> date_less a b \<or> a = b"
  by (auto simp: date_le_def date_less_def date_eq_iff)

lemma date_less_irrefl: "\<not> date_less a a"
  by (simp add: date_less_def)


lemma date_max_only:
  assumes "valid_date d" and "date_le date_max d"
  shows "d = date_max"
  using assms days_in_month_bounds [of "date_year d" "date_month d"]
  by (auto simp: valid_date_def date_le_def date_max_def date_eq_iff)

lemma date_add_day_returns:
  assumes "valid_date c" and "c \<noteq> date_max"
  shows "\<exists>n. date_add_day c = Inr n"
proof (cases "date_year c + 1 \<le> MAXYEAR \<or> date_month c + 1 \<le> 12
    \<or> date_day c + 1 \<le> days_in_month (date_year c) (date_month c)")
  case True
  then show ?thesis by (auto simp: date_add_day_def Let_def)
next
  case False
  with assms(1) have "date_year c = MAXYEAR" "date_month c = 12" "date_day c = 31"
    by (auto simp: valid_date_def days_in_month_def mdays_def)
  then have "c = date_max" by (simp add: date_max_def date_eq_iff)
  with assms(2) show ?thesis by simp
qed

lemma date_add_day_next:
  assumes "valid_date c" and "date_add_day c = Inr n"
  shows "valid_date n" and "date_less c n"
    and "\<And>d. valid_date d \<Longrightarrow> date_less c d \<longleftrightarrow> date_le n d"
proof -
  from assms show "valid_date n"
    using days_in_month_bounds [of "date_year c" "date_month c + 1"]
      days_in_month_bounds [of "date_year c + 1" 1]
    by (auto simp: date_add_day_def Let_def valid_date_def MINYEAR_def split: if_splits)
  from assms show "date_less c n"
    by (auto simp: date_add_day_def Let_def valid_date_def date_less_def split: if_splits)
  fix d assume "valid_date d"
  with assms show "date_less c d \<longleftrightarrow> date_le n d"
    by (auto simp: date_add_day_def Let_def valid_date_def date_less_def date_le_def
        split: if_splits)
qed

lemma working_days_loop_stop:
  "\<not> date_le c e \<Longrightarrow> working_days_loop e c acc = Inr acc"
  by (simp add: working_days_loop.simps [of e c acc])

lemma working_days_loop_step:
  "date_le c e \<Longrightarrow> date_add_day c = Inr n \<Longrightarrow>
   working_days_loop e c acc =
     working_days_loop e n (if weekday c < 5 then acc @ [c] else acc)"
  by (simp add: working_days_loop.simps [of e c acc])

lemma working_days_loop_correct:
  assumes "valid_date e" and "e \<noteq> date_max" and "valid_date c"
  shows "\<exists>ds. working_days_loop e c acc = Inr (acc @ ds) \<and>
           set ds = {d. valid_date d \<and> date_le c d \<and> date_le d e \<and> weekday d < 5} \<and>
           sorted_wrt date_less ds"
  using assms
proof (induction e c acc rule: working_days_loop.induct)
  case (1 e c acc)
  show ?case
  proof (cases "date_le c e")
    case False
    then have "working_days_loop e c acc = Inr (acc @ [])"
      by (simp add: working_days_loop_stop)
    moreover from False have "{d. valid_date d \<and> date_le c d \<and> date_le d e \<and> weekday d < 5} = {}"
      using date_le_trans by blast
    ultimately show ?thesis by force
  next
    case True
    have "c \<noteq> date_max"
    proof
      assume "c = date_max"
      with True "1.prems"(1) have "e = date_max" using date_max_only by blast
      with "1.prems"(2) show False by simp
    qed
    with "1.prems"(3) obtain n where n: "date_add_day c = Inr n"
      using date_add_day_returns by blast
    note nx = date_add_day_next [OF "1.prems"(3) n]
    define acc' where "acc' = (if weekday c < 5 then acc @ [c] else acc)"
    from "1.IH" [OF True refl n "1.prems"(1,2) nx(1)]
    obtain ds where run: "working_days_loop e n acc' = Inr (acc' @ ds)"
      and ds: "set ds = {d. valid_date d \<and> date_le n d \<and> date_le d e \<and> weekday d < 5}"
      and srt: "sorted_wrt date_less ds"
      unfolding acc'_def by blast
    define ds' where "ds' = (if weekday c < 5 then c # ds else ds)"
    have eq: "working_days_loop e c acc = Inr (acc @ ds')"
      using working_days_loop_step [OF True n, of acc] run
      by (simp add: acc'_def ds'_def)
    have split: "date_le c d \<longleftrightarrow> d = c \<or> date_le n d" if "valid_date d" for d
      using nx(3) [OF that] by (auto simp: date_le_iff)
    have set': "set ds' = {d. valid_date d \<and> date_le c d \<and> date_le d e \<and> weekday d < 5}"
    proof -
      have "{d. valid_date d \<and> date_le c d \<and> date_le d e \<and> weekday d < 5}
          = (if weekday c < 5 then {c} else {}) \<union>
            {d. valid_date d \<and> date_le n d \<and> date_le d e \<and> weekday d < 5}"
        using split True "1.prems"(3) by auto
      with ds show ?thesis by (simp add: ds'_def)
    qed
    have "date_less c d" if "d \<in> set ds" for d
      using that ds nx(2) date_less_le_trans by blast
    with srt have "sorted_wrt date_less ds'" by (simp add: ds'_def)
    with eq set' show ?thesis by blast
  qed
qed

lemma days_before_year_nonneg:
  assumes "1 \<le> y"
  shows "0 \<le> days_before_year y"
proof -
  define p where "p = y - 1"
  have p: "0 \<le> p" using assms by (simp add: p_def)
  then have "p div 100 \<le> p div 4" by (rule zdiv_mono2) simp_all
  moreover have "0 \<le> p div 400" using p by (simp add: pos_imp_zdiv_nonneg_iff)
  moreover have "0 \<le> p * 365" using p by simp
  ultimately have "0 \<le> p * 365 + p div 4 - p div 100 + p div 400" by linarith
  then show ?thesis by (simp add: days_before_year_def Let_def p_def)
qed

lemma days_before_month_nonneg: "0 \<le> days_before_month y m"
  by (simp add: days_before_month_def)

lemma toordinal_pos: "valid_date d \<Longrightarrow> 1 \<le> toordinal d"
  using days_before_year_nonneg [of "date_year d"]
    days_before_month_nonneg [of "date_year d" "date_month d"]
  by (simp add: toordinal_def valid_date_def MINYEAR_def)

lemma calendar_weekday_first:
  assumes "1 \<le> m" and "m \<le> 12"
  shows "\<exists>w. calendar_weekday y m 1 = Inr w"
proof -
  have dim: "1 \<le> days_in_month z m" for z by (simp add: days_in_month_def mdays_def)
  show ?thesis
  proof (cases "MINYEAR \<le> y \<and> y \<le> MAXYEAR")
    case True
    with assms dim [of y] have "valid_date \<lparr>date_year = y, date_month = m, date_day = 1\<rparr>"
      by (simp add: valid_date_def)
    with True show ?thesis by (simp add: calendar_weekday_def date_new_def Let_def)
  next
    case False
    have "0 \<le> y mod 400" "y mod 400 < 400" by simp_all
    then have "MINYEAR \<le> 2000 + y mod 400" "2000 + y mod 400 \<le> MAXYEAR"
      by (simp_all add: MINYEAR_def MAXYEAR_def)
    with assms dim [of "2000 + y mod 400"]
    have "valid_date \<lparr>date_year = 2000 + y mod 400, date_month = m, date_day = 1\<rparr>"
      by (simp add: valid_date_def)
    with False show ?thesis by (simp add: calendar_weekday_def date_new_def Let_def)
  qed
qed

lemma monthrange_days:
  assumes "1 \<le> m" and "m \<le> 12"
  shows "\<exists>w. monthrange y m = Inr (w, days_in_month y m)"
proof -
  from calendar_weekday_first [OF assms, of y] obtain w where
    "calendar_weekday y m 1 = Inr w" by blast
  with assms have "monthrange y m = Inr (w, days_in_month y m)"
    by (simp add: monthrange_def days_in_month_def Let_def)
  then show ?thesis by blast
qed

lemma subtract_one_month_eq:
  "subtract_one_month today =
     (case monthrange (if date_month today = 1 then date_year today - 1 else date_year today)
                      (if date_month today = 1 then 12 else date_month today - 1) of
        Inl e \<Rightarrow> Inl e
      | Inr mr \<Rightarrow>
          date_new (if date_month today = 1 then date_year today - 1 else date_year today)
                   (if date_month today = 1 then 12 else date_month today - 1)
                   (min (date_day today) (snd mr)))"
proof (cases "date_month today = 1")
  case True
  then show ?thesis
    by (simp add: subtract_one_month_def Let_def cong: sum.case_cong)
next
  case False
  then show ?thesis
    by (simp add: subtract_one_month_def Let_def cong: sum.case_cong)
qed

lemma subtract_one_month_general:
  assumes v: "valid_date today" and n: "\<not> (date_year today = 1 \<and> date_month today = 1)"
  shows "\<exists>r. subtract_one_month today = Inr r \<and> valid_date r \<and>
           (if date_month today = 1
            then date_year r = date_year today - 1 \<and> date_month r = 12
            else date_year r = date_year today \<and> date_month r = date_month today - 1) \<and>
           date_day r = min (date_day today) (days_in_month (date_year r) (date_month r))"
proof -
  define y where "y = (if date_month today = 1 then date_year today - 1 else date_year today)"
  define m where "m = (if date_month today = 1 then 12 else date_month today - 1)"
  define dd where "dd = min (date_day today) (days_in_month y m)"
  define r where "r = \<lparr>date_year = y, date_month = m, date_day = dd\<rparr>"
  from v n have ym: "MINYEAR \<le> y" "y \<le> MAXYEAR" "1 \<le> m" "m \<le> 12"
    by (auto simp: valid_date_def y_def m_def MINYEAR_def MAXYEAR_def)
  from monthrange_days [OF ym(3,4), of y] obtain w where
    mr: "monthrange y m = Inr (w, days_in_month y m)" by blast
  have "1 \<le> days_in_month y m" by (simp add: days_in_month_def mdays_def)
  with v have "1 \<le> dd" "dd \<le> days_in_month y m" by (simp_all add: dd_def valid_date_def)
  with ym have vr: "valid_date r" by (simp add: valid_date_def r_def)
  have "subtract_one_month today = date_new y m dd"
    unfolding subtract_one_month_eq y_def [symmetric] m_def [symmetric]
    by (simp add: mr dd_def)
  also have "\<dots> = Inr r" using vr by (simp add: date_new_def r_def)
  finally have f1: "subtract_one_month today = Inr r" .
  have f3: "if date_month today = 1
            then date_year r = date_year today - 1 \<and> date_month r = 12
            else date_year r = date_year today \<and> date_month r = date_month today - 1"
    by (simp add: r_def y_def m_def)
  have f4: "date_day r = min (date_day today) (days_in_month (date_year r) (date_month r))"
    by (simp add: r_def dd_def)
  from f1 vr f3 f4 show ?thesis by blast
qed


section \<open>Day numbers\<close>

text \<open>
  The day number grows with the date, so it identifies a valid date, and the day after a
  date has the next day number and the next weekday.
\<close>

lemma div_step:
  fixes a n :: int
  assumes "0 < n"
  shows "a div n = (a - 1) div n + (if a mod n = 0 then 1 else 0)"
proof (cases "a mod n = 0")
  case True
  have "a - 1 = n * (a div n - 1) + (n - 1)"
    using div_mult_mod_eq [of a n] True by (simp add: algebra_simps)
  moreover have "0 \<le> n - 1" "n - 1 < n" using assms by simp_all
  ultimately have "(a - 1) div n = a div n - 1" by (rule int_div_pos_eq)
  with True show ?thesis by simp
next
  case False
  have "0 \<le> a mod n" "a mod n < n" using assms by simp_all
  with False have r: "0 \<le> a mod n - 1" "a mod n - 1 < n" by simp_all
  have "a - 1 = n * (a div n) + (a mod n - 1)"
    using div_mult_mod_eq [of a n] by (simp add: algebra_simps)
  then have "(a - 1) div n = a div n"
    using r by (rule int_div_pos_eq)
  with False show ?thesis by simp
qed

lemma mod_100_4: "(y::int) mod 100 = 0 \<Longrightarrow> y mod 4 = 0"
  using mod_mod_cancel [of 4 100 y] by simp

lemma mod_400_100: "(y::int) mod 400 = 0 \<Longrightarrow> y mod 100 = 0"
  using mod_mod_cancel [of 100 400 y] by simp

lemma days_before_year_next:
  "days_before_year (y + 1) = days_before_year y + 365 + (if isleap y then 1 else 0)"
proof -
  define i4 :: int where "i4 = (if y mod 4 = 0 then 1 else 0)"
  define i100 :: int where "i100 = (if y mod 100 = 0 then 1 else 0)"
  define i400 :: int where "i400 = (if y mod 400 = 0 then 1 else 0)"
  have d4: "y div 4 = (y - 1) div 4 + i4"
    unfolding i4_def by (rule div_step) simp
  have d100: "y div 100 = (y - 1) div 100 + i100"
    unfolding i100_def by (rule div_step) simp
  have d400: "y div 400 = (y - 1) div 400 + i400"
    unfolding i400_def by (rule div_step) simp
  have e: "days_before_year (y + 1) = y * 365 + y div 4 - y div 100 + y div 400"
    by (simp add: days_before_year_def Let_def)
  have f: "days_before_year y
      = y * 365 - 365 + (y - 1) div 4 - (y - 1) div 100 + (y - 1) div 400"
    by (simp add: days_before_year_def Let_def algebra_simps)
  from e f d4 d100 d400
  have g: "days_before_year (y + 1) = days_before_year y + 365 + (i4 - i100 + i400)"
    by linarith
  have "i4 - i100 + i400 = (if isleap y then 1 else 0)"
  proof (cases "y mod 400 = 0")
    case True
    with mod_400_100 [OF True] mod_100_4 [of y] show ?thesis
      by (simp add: i4_def i100_def i400_def isleap_def)
  next
    case n400: False
    show ?thesis
    proof (cases "y mod 100 = 0")
      case True
      with n400 mod_100_4 [OF True] show ?thesis
        by (simp add: i4_def i100_def i400_def isleap_def)
    next
      case False
      with n400 show ?thesis
        by (simp add: i4_def i100_def i400_def isleap_def)
    qed
  qed
  with g show ?thesis by simp
qed

lemma days_before_year_mono:
  assumes "y \<le> y'"
  shows "days_before_year y \<le> days_before_year y'"
  using assms
proof (induction y' rule: int_ge_induct)
  case base
  show ?case by simp
next
  case (step i)
  then show ?case using days_before_year_next [of i] by (simp split: if_splits)
qed

lemma month_cases:
  assumes "1 \<le> m" and "m \<le> 12"
  shows "m = 1 \<or> m = 2 \<or> m = 3 \<or> m = 4 \<or> m = 5 \<or> m = 6 \<or> m = 7 \<or> m = 8 \<or>
         m = 9 \<or> m = 10 \<or> m = 11 \<or> m = (12::int)"
  using assms by arith

lemma days_before_month_next:
  assumes "1 \<le> m" and "m < 12"
  shows "days_before_month y (m + 1) = days_before_month y m + days_in_month y m"
proof -
  from assms have "m = 1 \<or> m = 2 \<or> m = 3 \<or> m = 4 \<or> m = 5 \<or> m = 6 \<or> m = 7 \<or> m = 8 \<or>
         m = 9 \<or> m = 10 \<or> m = 11" by arith
  then show ?thesis
    by (elim disjE) (simp_all add: days_before_month_def days_in_month_def mdays_def)
qed

lemma days_before_month_mono:
  assumes "1 \<le> m" and "m \<le> m'" and "m' \<le> 12"
  shows "days_before_month y m \<le> days_before_month y m'"
  using assms(2,3)
proof (induction m' rule: int_ge_induct)
  case base
  show ?case by simp
next
  case (step i)
  have "0 \<le> days_in_month y i" by (simp add: days_in_month_def mdays_def)
  with step assms(1) days_before_month_next [of i y] show ?case by simp
qed

lemma days_in_year:
  assumes "1 \<le> m" and "m \<le> 12"
  shows "days_before_month y m + days_in_month y m \<le> 365 + (if isleap y then 1 else 0)"
  using month_cases [OF assms]
  by (elim disjE) (simp_all add: days_before_month_def days_in_month_def mdays_def)

lemma toordinal_mono:
  assumes "valid_date a" and "valid_date b" and "date_less a b"
  shows "toordinal a < toordinal b"
proof -
  from assms(1) have a: "1 \<le> date_month a" "date_month a \<le> 12" "1 \<le> date_day a"
    "date_day a \<le> days_in_month (date_year a) (date_month a)"
    by (simp_all add: valid_date_def)
  from assms(2) have b: "1 \<le> date_month b" "date_month b \<le> 12" "1 \<le> date_day b"
    by (simp_all add: valid_date_def)
  consider (year) "date_year a < date_year b"
    | (month) "date_year a = date_year b" "date_month a < date_month b"
    | (day) "date_year a = date_year b" "date_month a = date_month b" "date_day a < date_day b"
    using assms(3) by (auto simp: date_less_def)
  then show ?thesis
  proof cases
    case year
    have "toordinal a \<le> days_before_year (date_year a + 1)"
      using days_in_year [OF a(1,2), of "date_year a"] a(4)
        days_before_year_next [of "date_year a"]
      by (simp add: toordinal_def)
    also have "\<dots> \<le> days_before_year (date_year b)"
      using year by (intro days_before_year_mono) simp
    also have "\<dots> < toordinal b"
      using b(3) days_before_month_nonneg [of "date_year b" "date_month b"]
      by (simp add: toordinal_def)
    finally show ?thesis .
  next
    case month
    have "days_before_month (date_year a) (date_month a) + date_day a
        \<le> days_before_month (date_year a) (date_month a + 1)"
      using days_before_month_next [of "date_month a" "date_year a"] a month(2) b(2) by simp
    also have "\<dots> \<le> days_before_month (date_year a) (date_month b)"
      using a(1) month(2) b(2) by (intro days_before_month_mono) simp_all
    finally show ?thesis using month(1) b(3) by (simp add: toordinal_def)
  next
    case day
    then show ?thesis by (simp add: toordinal_def)
  qed
qed

lemma toordinal_inj:
  assumes "valid_date a" and "valid_date b" and "toordinal a = toordinal b"
  shows "a = b"
proof (rule ccontr)
  assume "a \<noteq> b"
  then have "date_less a b \<or> date_less b a"
    by (auto simp: date_less_def date_eq_iff)
  with toordinal_mono [OF assms(1,2)] toordinal_mono [OF assms(2,1)] assms(3)
  show False by auto
qed



lemma toordinal_next:
  assumes "valid_date c" and "date_add_day c = Inr n"
  shows "toordinal n = toordinal c + 1"
proof -
  from assms(1) have c: "1 \<le> date_month c" "date_month c \<le> 12" "1 \<le> date_day c"
    "date_day c \<le> days_in_month (date_year c) (date_month c)"
    by (simp_all add: valid_date_def)
  consider (d) "date_day c + 1 \<le> days_in_month (date_year c) (date_month c)"
    | (m) "date_day c = days_in_month (date_year c) (date_month c)" "date_month c < 12"
    | (y) "date_day c = days_in_month (date_year c) (date_month c)" "date_month c = 12"
    using c by linarith
  then show ?thesis
  proof cases
    case d
    with assms(2) have "n = c\<lparr>date_day := date_day c + 1\<rparr>"
      by (simp add: date_add_day_def Let_def)
    then show ?thesis by (simp add: toordinal_def)
  next
    case m
    with assms(2) have "n = \<lparr>date_year = date_year c, date_month = date_month c + 1, date_day = 1\<rparr>"
      by (simp add: date_add_day_def Let_def)
    then show ?thesis
      using days_before_month_next [OF c(1) m(2), of "date_year c"] m(1)
      by (simp add: toordinal_def)
  next
    case y
    then have "date_day c = 31" by (simp add: days_in_month_def mdays_def)
    with y assms(2) have "n = \<lparr>date_year = date_year c + 1, date_month = 1, date_day = 1\<rparr>"
      by (auto simp: date_add_day_def Let_def days_in_month_def mdays_def split: if_splits)
    then show ?thesis
      using days_before_year_next [of "date_year c"] y \<open>date_day c = 31\<close>
      by (simp add: toordinal_def days_before_month_def)
  qed
qed

lemma weekday_next:
  assumes "valid_date c" and "date_add_day c = Inr n"
  shows "weekday n = (weekday c + 1) mod 7"
  using toordinal_next [OF assms] by (simp add: weekday_def mod_simps algebra_simps)

section \<open>From the loop to \<^verbatim>\<open>build_day_payloads\<close>\<close>

lemma build_day_payloads_eq:
  "build_day_payloads d issues remaining max_task_hours g =
     alloc_loop (map key issues) (map weight issues) (max_task_hours * 3600)
       \<lparr>st_rng = g,
          current_dt = \<lparr>dt_ordinal = toordinal d, dt_second = 36000, dt_utcoffset = Some 10800\<rparr>,
          remaining_seconds = remaining, payloads = []\<rparr>"
  by (simp add: build_day_payloads_def Let_def hour_seconds_def replace_tzinfo_def
      datetime_combine_def)

lemma build_day_payloads_bounded_eq:
  "build_day_payloads_bounded n d issues remaining max_task_hours g =
     alloc_iter n (map key issues) (map weight issues) (max_task_hours * 3600)
       \<lparr>st_rng = g,
          current_dt = \<lparr>dt_ordinal = toordinal d, dt_second = 36000, dt_utcoffset = Some 10800\<rparr>,
          remaining_seconds = remaining, payloads = []\<rparr>"
  by (simp add: build_day_payloads_bounded_def Let_def hour_seconds_def replace_tzinfo_def
      datetime_combine_def)

lemma build_day_payloads_emitted:
  assumes "build_day_payloads d issues remaining max_task_hours g = Inr ps"
  shows "emitted (max_task_hours * 3600)
           \<lparr>dt_ordinal = toordinal d, dt_second = 36000, dt_utcoffset = Some 10800\<rparr>
           remaining ps"
  using alloc_loop_emitted [OF assms [unfolded build_day_payloads_eq]] by simp

lemma sum_list_weights_pos:
  assumes "issues \<noteq> []" and "list_all (\<lambda>i. 0 < weight i) issues"
  shows "0 < sum_list (map weight issues)"
  using assms
proof (induction issues)
  case Nil
  then show ?case by simp
next
  case (Cons i issues)
  show ?case
  proof (cases "issues = []")
    case True
    with Cons.prems show ?thesis by simp
  next
    case False
    with Cons have "0 < sum_list (map weight issues)" by simp
    with Cons.prems show ?thesis by simp
  qed
qed

lemma build_day_payloads_returns:
  assumes "preconditions issues remaining max_task_hours" and "valid_date d"
    and "clock_in_range d remaining" and "weights_in_range issues"
  shows "\<exists>ps. build_day_payloads d issues remaining max_task_hours g = Inr ps"
proof -
  from assms(1) have mc: "3600 \<le> max_task_hours * 3600" and ne: "map key issues \<noteq> []"
    and pos: "0 < sum_list (map weight issues)"
    by (simp_all add: preconditions_def sum_list_weights_pos)
  have len: "length (map weight issues) = length (map key issues)" by simp
  from assms(4) have fl: "sum_list (map weight issues) < float_overflow"
    by (simp add: weights_in_range_def)
  let ?s = "\<lparr>st_rng = g,
          current_dt = \<lparr>dt_ordinal = toordinal d, dt_second = 36000, dt_utcoffset = Some 10800\<rparr>,
          remaining_seconds = remaining, payloads = []\<rparr>"
  have o: "1 \<le> dt_ordinal (current_dt ?s)" using toordinal_pos [OF assms(2)] by simp
  have s: "0 \<le> dt_second (current_dt ?s)" by simp
  have c: "dt_ordinal (current_dt ?s) * 86400 + dt_second (current_dt ?s)
           + 3600 * (remaining_seconds ?s div 3600) < (MAXORDINAL + 1) * 86400"
    using assms(3) by (simp add: clock_in_range_def)
  from alloc_loop_returns [OF mc ne len pos fl o s c]
  show ?thesis by (simp add: build_day_payloads_eq)
qed

text \<open>
  Outside the limits of the library a call that enters the loop raises \<^verbatim>\<open>OverflowError\<close>,
  whatever the draws.
\<close>

lemma choices_overflow:
  assumes "ks \<noteq> []" and "length ws = length ks" and "float_overflow \<le> sum_list ws"
  shows "choices g ks ws = Inl OverflowError"
proof -
  from assms have ne: "ws \<noteq> []" by auto
  then have acc: "accumulate 0 ws \<noteq> []" by (cases ws) simp_all
  have "last (accumulate 0 ws) = sum_list ws"
    using last_accumulate [OF ne, of 0] by simp
  with assms acc show ?thesis
    by (simp add: choices_def Let_def length_accumulate)
qed

lemma alloc_step_weights_overflow:
  assumes "3600 \<le> remaining_seconds s" and "3600 \<le> mc"
    and "ks \<noteq> []" and "length ws = length ks" and "float_overflow \<le> sum_list ws"
  shows "alloc_step ks ws mc s = Inl OverflowError"
proof -
  define m where "m = min mc (remaining_seconds s)"
  have "3600 \<le> m" using assms(1,2) by (simp add: m_def)
  then have "3600 div 3600 \<le> m div 3600" by (rule zdiv_mono1) simp
  then have "1 \<le> min mc (remaining_seconds s) div 3600" by (simp add: m_def)
  from randint_returns [OF this] obtain ch g1 where
    r: "randint (st_rng s) 1 (min mc (remaining_seconds s) div 3600) = Inr (ch, g1)"
    by blast
  with choices_overflow [OF assms(3-5), of g1] show ?thesis
    by (simp add: alloc_step_def Let_def hour_seconds_def)
qed

lemma alloc_step_outcome:
  assumes "3600 \<le> remaining_seconds s" and "3600 \<le> mc"
    and "ks \<noteq> []" and "length ws = length ks"
    and "0 < sum_list ws" and "sum_list ws < float_overflow"
  shows "alloc_step ks ws mc s = Inl OverflowError \<or> (\<exists>s'. alloc_step ks ws mc s = Inr s')"
proof -
  define m where "m = min mc (remaining_seconds s)"
  have "3600 \<le> m" using assms(1,2) by (simp add: m_def)
  then have "3600 div 3600 \<le> m div 3600" by (rule zdiv_mono1) simp
  then have "1 \<le> min mc (remaining_seconds s) div 3600" by (simp add: m_def)
  from randint_returns [OF this] obtain ch g1 where
    r: "randint (st_rng s) 1 (min mc (remaining_seconds s) div 3600) = Inr (ch, g1)"
    by blast
  from choices_returns [OF assms(3-6)] obtain k g2 where
    c: "choices g1 ks ws = Inr (k, g2)" by blast
  show ?thesis
  proof (cases "datetime_add_seconds (current_dt s) (ch * 3600)")
    case (Inl e)
    then have "e = OverflowError"
      by (auto simp: datetime_add_seconds_def Let_def split: if_splits)
    with Inl r c show ?thesis by (simp add: alloc_step_def Let_def hour_seconds_def)
  next
    case (Inr t)
    with r c show ?thesis by (simp add: alloc_step_def Let_def hour_seconds_def)
  qed
qed

lemma alloc_loop_clock_overflow:
  assumes "3600 \<le> mc" and "ks \<noteq> []" and "length ws = length ks"
    and "0 < sum_list ws" and "sum_list ws < float_overflow"
    and "3600 \<le> remaining_seconds s"
    and "(MAXORDINAL + 1) * 86400 \<le> dt_ordinal (current_dt s) * 86400
           + dt_second (current_dt s) + 3600 * (remaining_seconds s div 3600)"
  shows "alloc_loop ks ws mc s = Inl OverflowError"
  using assms(6,7)
proof (induction "nat (remaining_seconds s)" arbitrary: s rule: less_induct)
  case less
  from alloc_step_outcome [OF less.prems(1) assms(1-5)]
  show ?case
  proof
    assume "alloc_step ks ws mc s = Inl OverflowError"
    with less.prems(1) show ?thesis by (simp add: alloc_loop_error)
  next
    assume "\<exists>s'. alloc_step ks ws mc s = Inr s'"
    then obtain s' where step: "alloc_step ks ws mc s = Inr s'" by blast
    from step obtain ch k where ch: "1 \<le> ch"
      and rem: "remaining_seconds s' = remaining_seconds s - ch * 3600"
      and add: "datetime_add_seconds (current_dt s) (ch * 3600) = Inr (current_dt s')"
      by (rule alloc_step_Inr)
    have lt: "nat (remaining_seconds s') < nat (remaining_seconds s)"
      using less.prems(1) ch rem by simp
    have "(remaining_seconds s + (- ch) * 3600) div 3600 = - ch + remaining_seconds s div 3600"
      by (rule div_mult_self1) simp
    then have d: "remaining_seconds s' div 3600 = remaining_seconds s div 3600 - ch"
      using rem by simp
    have inv: "(MAXORDINAL + 1) * 86400 \<le> dt_ordinal (current_dt s') * 86400
           + dt_second (current_dt s') + 3600 * (remaining_seconds s' div 3600)"
      using datetime_add_seconds_Inr(1) [OF add] d less.prems(2) by (simp add: algebra_simps)
    have "dt_ordinal (current_dt s') * 86400 + dt_second (current_dt s')
          < (MAXORDINAL + 1) * 86400"
      using datetime_add_seconds_Inr(4,6) [OF add] by simp
    with inv have "0 < remaining_seconds s' div 3600" by simp
    then have ge: "3600 \<le> remaining_seconds s'"
      by (simp add: pos_imp_zdiv_pos_iff)
    from lt ge inv have "alloc_loop ks ws mc s' = Inl OverflowError" by (rule less.hyps)
    with less.prems(1) step show ?thesis by (simp add: alloc_loop_step)
  qed
qed

lemma build_day_payloads_raises:
  assumes "preconditions issues remaining max_task_hours"
    and "3600 \<le> remaining"
    and "\<not> (clock_in_range d remaining \<and> weights_in_range issues)"
  shows "build_day_payloads d issues remaining max_task_hours g = Inl OverflowError"
proof -
  from assms(1) have mc: "3600 \<le> max_task_hours * 3600" and ne: "map key issues \<noteq> []"
    and pos: "0 < sum_list (map weight issues)"
    by (simp_all add: preconditions_def sum_list_weights_pos)
  have len: "length (map weight issues) = length (map key issues)" by simp
  let ?s = "\<lparr>st_rng = g,
          current_dt = \<lparr>dt_ordinal = toordinal d, dt_second = 36000, dt_utcoffset = Some 10800\<rparr>,
          remaining_seconds = remaining, payloads = []\<rparr>"
  have r: "3600 \<le> remaining_seconds ?s" using assms(2) by simp
  show ?thesis
  proof (cases "weights_in_range issues")
    case False
    then have "float_overflow \<le> sum_list (map weight issues)"
      by (simp add: weights_in_range_def)
    from alloc_step_weights_overflow [OF r mc ne len this]
    have "alloc_loop (map key issues) (map weight issues) (max_task_hours * 3600) ?s
            = Inl OverflowError"
      using r by (simp add: alloc_loop_error)
    then show ?thesis by (simp add: build_day_payloads_eq)
  next
    case True
    then have fl: "sum_list (map weight issues) < float_overflow"
      by (simp add: weights_in_range_def)
    from True assms(3) have "\<not> clock_in_range d remaining" by simp
    then have c: "(MAXORDINAL + 1) * 86400 \<le> dt_ordinal (current_dt ?s) * 86400
           + dt_second (current_dt ?s) + 3600 * (remaining_seconds ?s div 3600)"
      by (simp add: clock_in_range_def)
    from alloc_loop_clock_overflow [OF mc ne len pos fl r c]
    show ?thesis by (simp add: build_day_payloads_eq)
  qed
qed









lemma example_day_valid: "valid_date \<lparr>date_year = 2025, date_month = 1, date_day = 6\<rparr>"
  by (simp add: valid_date_def MINYEAR_def MAXYEAR_def days_in_month_def mdays_def)

lemma last_day_valid: "valid_date \<lparr>date_year = 9999, date_month = 12, date_day = 31\<rparr>"
  by (simp add: valid_date_def MINYEAR_def MAXYEAR_def days_in_month_def mdays_def)

section \<open>Properties of the allocator\<close>

text \<open>
  C1. For a budget that is not negative, a per-entry maximum of at least one hour and a
  non-empty list of issues with positive weights, the allocator returns entries whose
  durations sum to at most the budget and to at least the budget less 3599 seconds,
  provided the call stays within the limits of the standard library: the clock, which
  starts at 10:00 on the day and advances by the whole hours of the budget, does not pass
  9999-12-31, and the total weight converts to a float. Outside these limits a call with
  a budget of an hour or more raises \<^verbatim>\<open>OverflowError\<close> and returns nothing
  (\<open>build_day_payloads_raises\<close>), as on the last day of the calendar with a budget of
  fourteen hours.
\<close>

theorem budget_exhausted_within_one_hour:
  assumes "preconditions issues remaining max_task_hours" and "valid_date d"
    and "clock_in_range d remaining" and "weights_in_range issues"
  shows "\<exists>ps. build_day_payloads d issues remaining max_task_hours g = Inr ps \<and>
           remaining - 3599 \<le> (\<Sum>e\<leftarrow>ps. timeSpentSeconds (snd e)) \<and>
           (\<Sum>e\<leftarrow>ps. timeSpentSeconds (snd e)) \<le> remaining"
proof -
  from build_day_payloads_returns [OF assms] obtain ps where
    ps: "build_day_payloads d issues remaining max_task_hours g = Inr ps" by blast
  from assms(1) have r: "0 \<le> remaining" by (simp add: preconditions_def)
  from emitted_sum [OF build_day_payloads_emitted [OF ps] r]
  have sum: "(\<Sum>e\<leftarrow>ps. timeSpentSeconds (snd e)) = 3600 * (remaining div 3600)" .
  have "remaining = 3600 * (remaining div 3600) + remaining mod 3600" by simp
  moreover have "0 \<le> remaining mod 3600" "remaining mod 3600 < 3600" by simp_all
  ultimately have "remaining - 3599 \<le> 3600 * (remaining div 3600)"
    and "3600 * (remaining div 3600) \<le> remaining" by linarith+
  with ps sum show ?thesis by simp
qed

theorem budget_exhausted_within_one_hour_witness:
  "preconditions
     [\<lparr>key = ''A-1'', summary = ''first'', weight = 5\<rparr>,
      \<lparr>key = ''B-2'', summary = ''second'', weight = 1\<rparr>] 12000 2 \<and>
   valid_date \<lparr>date_year = 2025, date_month = 1, date_day = 6\<rparr> \<and>
   clock_in_range \<lparr>date_year = 2025, date_month = 1, date_day = 6\<rparr> 12000 \<and>
   weights_in_range
     [\<lparr>key = ''A-1'', summary = ''first'', weight = 5\<rparr>,
      \<lparr>key = ''B-2'', summary = ''second'', weight = 1\<rparr>] \<and>
   (\<exists>ps. build_day_payloads \<lparr>date_year = 2025, date_month = 1, date_day = 6\<rparr>
     [\<lparr>key = ''A-1'', summary = ''first'', weight = 5\<rparr>,
      \<lparr>key = ''B-2'', summary = ''second'', weight = 1\<rparr>] 12000 2 (\<lambda>i. i) = Inr ps \<and>
     12000 - 3599 \<le> (\<Sum>e\<leftarrow>ps. timeSpentSeconds (snd e)) \<and>
     (\<Sum>e\<leftarrow>ps. timeSpentSeconds (snd e)) \<le> 12000)"
proof -
  have h1: "preconditions
     [\<lparr>key = ''A-1'', summary = ''first'', weight = 5\<rparr>,
      \<lparr>key = ''B-2'', summary = ''second'', weight = 1\<rparr>] 12000 2"
    by (simp add: preconditions_def)
  have h3: "clock_in_range \<lparr>date_year = 2025, date_month = 1, date_day = 6\<rparr> 12000"
    by code_simp
  have h4: "weights_in_range
     [\<lparr>key = ''A-1'', summary = ''first'', weight = 5\<rparr>,
      \<lparr>key = ''B-2'', summary = ''second'', weight = 1\<rparr>]"
    by code_simp
  from budget_exhausted_within_one_hour [OF h1 example_day_valid h3 h4, of "\<lambda>i. i"]
    h1 example_day_valid h3 h4
  show ?thesis by simp
qed

text \<open>
  On 9999-12-31 a budget of fourteen hours with a maximum of one hour per entry satisfies
  the preconditions; the fourteenth advance of the clock would reach midnight of the year
  10000 and raises.
\<close>

theorem budget_exhausted_counterexample:
  "preconditions [\<lparr>key = ''A-1'', summary = ''first'', weight = 1\<rparr>] 50400 1 \<and>
   valid_date \<lparr>date_year = 9999, date_month = 12, date_day = 31\<rparr> \<and>
   build_day_payloads \<lparr>date_year = 9999, date_month = 12, date_day = 31\<rparr>
     [\<lparr>key = ''A-1'', summary = ''first'', weight = 1\<rparr>] 50400 1 (\<lambda>i. 0)
     = Inl OverflowError"
proof -
  have "preconditions [\<lparr>key = ''A-1'', summary = ''first'', weight = 1\<rparr>] 50400 1"
    by (simp add: preconditions_def)
  moreover have "build_day_payloads \<lparr>date_year = 9999, date_month = 12, date_day = 31\<rparr>
     [\<lparr>key = ''A-1'', summary = ''first'', weight = 1\<rparr>] 50400 1 (\<lambda>i. 0)
     = Inl OverflowError"
    by code_simp
  ultimately show ?thesis using last_day_valid by simp
qed

text \<open>
  C2. Every entry of a list that the allocator returns has a duration that is positive, a
  multiple of 3600 seconds and at most \<open>max_task_hours * 3600\<close>. This holds for every call
  that returns, so for every call that satisfies the preconditions.
\<close>

theorem entry_durations_whole_hours_within_cap:
  assumes "build_day_payloads d issues remaining max_task_hours g = Inr ps"
    and "e \<in> set ps"
  shows "0 < timeSpentSeconds (snd e) \<and> 3600 dvd timeSpentSeconds (snd e) \<and>
         timeSpentSeconds (snd e) \<le> max_task_hours * 3600"
  using emitted_durations [OF build_day_payloads_emitted [OF assms(1)] assms(2)] .

theorem entry_durations_whole_hours_within_cap_witness:
  "build_day_payloads \<lparr>date_year = 2025, date_month = 1, date_day = 6\<rparr>
     [\<lparr>key = ''A-1'', summary = ''first'', weight = 5\<rparr>,
      \<lparr>key = ''B-2'', summary = ''second'', weight = 1\<rparr>] 18000 3 (\<lambda>i. i)
     = Inr [(''A-1'', \<lparr>comment = ''Work on task A-1'', started = \<lparr>dt_ordinal = 739257, dt_second = 36000, dt_utcoffset = Some 10800\<rparr>, timeSpentSeconds = 3600\<rparr>),
          (''A-1'', \<lparr>comment = ''Work on task A-1'', started = \<lparr>dt_ordinal = 739257, dt_second = 39600, dt_utcoffset = Some 10800\<rparr>, timeSpentSeconds = 10800\<rparr>),
          (''B-2'', \<lparr>comment = ''Work on task B-2'', started = \<lparr>dt_ordinal = 739257, dt_second = 50400, dt_utcoffset = Some 10800\<rparr>, timeSpentSeconds = 3600\<rparr>)] \<and>
   0 < timeSpentSeconds (snd (''A-1'', \<lparr>comment = ''Work on task A-1'', started = \<lparr>dt_ordinal = 739257, dt_second = 39600, dt_utcoffset = Some 10800\<rparr>, timeSpentSeconds = 10800\<rparr>)) \<and>
   3600 dvd timeSpentSeconds (snd (''A-1'', \<lparr>comment = ''Work on task A-1'', started = \<lparr>dt_ordinal = 739257, dt_second = 39600, dt_utcoffset = Some 10800\<rparr>, timeSpentSeconds = 10800\<rparr>)) \<and>
   timeSpentSeconds (snd (''A-1'', \<lparr>comment = ''Work on task A-1'', started = \<lparr>dt_ordinal = 739257, dt_second = 39600, dt_utcoffset = Some 10800\<rparr>, timeSpentSeconds = 10800\<rparr>)) \<le> 3 * 3600"
proof -
  have run: "build_day_payloads \<lparr>date_year = 2025, date_month = 1, date_day = 6\<rparr>
     [\<lparr>key = ''A-1'', summary = ''first'', weight = 5\<rparr>,
      \<lparr>key = ''B-2'', summary = ''second'', weight = 1\<rparr>] 18000 3 (\<lambda>i. i)
     = Inr [(''A-1'', \<lparr>comment = ''Work on task A-1'', started = \<lparr>dt_ordinal = 739257, dt_second = 36000, dt_utcoffset = Some 10800\<rparr>, timeSpentSeconds = 3600\<rparr>),
          (''A-1'', \<lparr>comment = ''Work on task A-1'', started = \<lparr>dt_ordinal = 739257, dt_second = 39600, dt_utcoffset = Some 10800\<rparr>, timeSpentSeconds = 10800\<rparr>),
          (''B-2'', \<lparr>comment = ''Work on task B-2'', started = \<lparr>dt_ordinal = 739257, dt_second = 50400, dt_utcoffset = Some 10800\<rparr>, timeSpentSeconds = 3600\<rparr>)]"
    by code_simp
  have mem: "(''A-1'', \<lparr>comment = ''Work on task A-1'', started = \<lparr>dt_ordinal = 739257, dt_second = 39600, dt_utcoffset = Some 10800\<rparr>, timeSpentSeconds = 10800\<rparr>)
     \<in> set [(''A-1'', \<lparr>comment = ''Work on task A-1'', started = \<lparr>dt_ordinal = 739257, dt_second = 36000, dt_utcoffset = Some 10800\<rparr>, timeSpentSeconds = 3600\<rparr>),
          (''A-1'', \<lparr>comment = ''Work on task A-1'', started = \<lparr>dt_ordinal = 739257, dt_second = 39600, dt_utcoffset = Some 10800\<rparr>, timeSpentSeconds = 10800\<rparr>),
          (''B-2'', \<lparr>comment = ''Work on task B-2'', started = \<lparr>dt_ordinal = 739257, dt_second = 50400, dt_utcoffset = Some 10800\<rparr>, timeSpentSeconds = 3600\<rparr>)]"
    by simp
  from entry_durations_whole_hours_within_cap [OF run mem] run show ?thesis by simp
qed

text \<open>
  C3. When the remaining budget is below one hour (also zero or negative), the
  allocator returns the empty list, whatever the day, the issues (even none) and the
  per-entry maximum.
\<close>

theorem build_day_payloads_below_hour:
  assumes "remaining < 3600"
  shows "build_day_payloads d issues remaining max_task_hours g = Inr []"
  using assms
  by (simp add: build_day_payloads_def Let_def hour_seconds_def alloc_loop.simps)

theorem build_day_payloads_below_hour_witness:
  "(3599::int) < 3600 \<and>
   build_day_payloads \<lparr>date_year = 2025, date_month = 1, date_day = 6\<rparr>
     [\<lparr>key = ''A-1'', summary = ''first'', weight = 5\<rparr>] 3599 2 (\<lambda>i. i) = Inr []"
  using build_day_payloads_below_hour [of 3599
      "\<lparr>date_year = 2025, date_month = 1, date_day = 6\<rparr>"
      "[\<lparr>key = ''A-1'', summary = ''first'', weight = 5\<rparr>]" 2 "\<lambda>i. i"]
  by simp

text \<open>
  C4. The loop of the allocator terminates on every input: a pass that completes lowers
  the remaining budget by at least 3600 seconds, and the loop has left (by returning or
  by raising) after at most \<open>remaining div 3600\<close> passes, since the loop cut off after that
  many passes already gives the outcome of the whole loop. A returned list therefore has
  at most that many entries.
\<close>

theorem allocator_loop_terminates:
  "build_day_payloads_bounded (nat (remaining div 3600)) d issues remaining max_task_hours g
     = Some (build_day_payloads d issues remaining max_task_hours g) \<and>
   (\<forall>ks ws mc s s'. alloc_step ks ws mc s = Inr s' \<longrightarrow>
      remaining_seconds s' \<le> remaining_seconds s - 3600) \<and>
   (\<forall>ps. build_day_payloads d issues remaining max_task_hours g = Inr ps \<longrightarrow>
      int (length ps) \<le> max 0 (remaining div 3600))"
proof (intro conjI allI impI)
  show "build_day_payloads_bounded (nat (remaining div 3600)) d issues remaining max_task_hours g
     = Some (build_day_payloads d issues remaining max_task_hours g)"
    unfolding build_day_payloads_bounded_eq build_day_payloads_eq
    by (rule alloc_iter_enough) simp
next
  fix ks ws mc s s'
  assume "alloc_step ks ws mc s = Inr s'"
  then show "remaining_seconds s' \<le> remaining_seconds s - 3600"
    by (rule alloc_step_Inr) simp
next
  fix ps
  assume run: "build_day_payloads d issues remaining max_task_hours g = Inr ps"
  from emitted_length [OF build_day_payloads_emitted [OF run]]
  show "int (length ps) \<le> max 0 (remaining div 3600)" .
qed

theorem allocator_loop_terminates_witness:
  "build_day_payloads_bounded 3 \<lparr>date_year = 2025, date_month = 1, date_day = 6\<rparr>
     [\<lparr>key = ''A-1'', summary = ''first'', weight = 5\<rparr>,
      \<lparr>key = ''B-2'', summary = ''second'', weight = 1\<rparr>] 10800 1 (\<lambda>i. 5 * i)
     = Some (Inr [(''B-2'', \<lparr>comment = ''Work on task B-2'', started = \<lparr>dt_ordinal = 739257, dt_second = 36000, dt_utcoffset = Some 10800\<rparr>, timeSpentSeconds = 3600\<rparr>),
                (''A-1'', \<lparr>comment = ''Work on task A-1'', started = \<lparr>dt_ordinal = 739257, dt_second = 39600, dt_utcoffset = Some 10800\<rparr>, timeSpentSeconds = 3600\<rparr>),
                (''A-1'', \<lparr>comment = ''Work on task A-1'', started = \<lparr>dt_ordinal = 739257, dt_second = 43200, dt_utcoffset = Some 10800\<rparr>, timeSpentSeconds = 3600\<rparr>)]) \<and>
   (\<exists>s'. alloc_step [''A-1'', ''B-2''] [5, 1] 7200
      \<lparr>st_rng = (\<lambda>i. i + 1), current_dt = \<lparr>dt_ordinal = 739257, dt_second = 36000, dt_utcoffset = Some 10800\<rparr>, remaining_seconds = 10800, payloads = []\<rparr> = Inr s' \<and>
      remaining_seconds s' \<le> 10800 - 3600) \<and>
   int (length [(''B-2'', \<lparr>comment = ''Work on task B-2'', started = \<lparr>dt_ordinal = 739257, dt_second = 36000, dt_utcoffset = Some 10800\<rparr>, timeSpentSeconds = 3600\<rparr>),
                (''A-1'', \<lparr>comment = ''Work on task A-1'', started = \<lparr>dt_ordinal = 739257, dt_second = 39600, dt_utcoffset = Some 10800\<rparr>, timeSpentSeconds = 3600\<rparr>),
                (''A-1'', \<lparr>comment = ''Work on task A-1'', started = \<lparr>dt_ordinal = 739257, dt_second = 43200, dt_utcoffset = Some 10800\<rparr>, timeSpentSeconds = 3600\<rparr>)]) \<le> max 0 (10800 div 3600)"
proof -
  note t = allocator_loop_terminates [of 10800 "\<lparr>date_year = 2025, date_month = 1, date_day = 6\<rparr>"
     "[\<lparr>key = ''A-1'', summary = ''first'', weight = 5\<rparr>,
      \<lparr>key = ''B-2'', summary = ''second'', weight = 1\<rparr>]" 1 "\<lambda>i. 5 * i"]
  have run: "build_day_payloads \<lparr>date_year = 2025, date_month = 1, date_day = 6\<rparr>
     [\<lparr>key = ''A-1'', summary = ''first'', weight = 5\<rparr>,
      \<lparr>key = ''B-2'', summary = ''second'', weight = 1\<rparr>] 10800 1 (\<lambda>i. 5 * i)
     = Inr [(''B-2'', \<lparr>comment = ''Work on task B-2'', started = \<lparr>dt_ordinal = 739257, dt_second = 36000, dt_utcoffset = Some 10800\<rparr>, timeSpentSeconds = 3600\<rparr>),
          (''A-1'', \<lparr>comment = ''Work on task A-1'', started = \<lparr>dt_ordinal = 739257, dt_second = 39600, dt_utcoffset = Some 10800\<rparr>, timeSpentSeconds = 3600\<rparr>),
          (''A-1'', \<lparr>comment = ''Work on task A-1'', started = \<lparr>dt_ordinal = 739257, dt_second = 43200, dt_utcoffset = Some 10800\<rparr>, timeSpentSeconds = 3600\<rparr>)]"
    by code_simp
  have a: "build_day_payloads_bounded 3 \<lparr>date_year = 2025, date_month = 1, date_day = 6\<rparr>
     [\<lparr>key = ''A-1'', summary = ''first'', weight = 5\<rparr>,
      \<lparr>key = ''B-2'', summary = ''second'', weight = 1\<rparr>] 10800 1 (\<lambda>i. 5 * i)
     = Some (Inr [(''B-2'', \<lparr>comment = ''Work on task B-2'', started = \<lparr>dt_ordinal = 739257, dt_second = 36000, dt_utcoffset = Some 10800\<rparr>, timeSpentSeconds = 3600\<rparr>),
                (''A-1'', \<lparr>comment = ''Work on task A-1'', started = \<lparr>dt_ordinal = 739257, dt_second = 39600, dt_utcoffset = Some 10800\<rparr>, timeSpentSeconds = 3600\<rparr>),
                (''A-1'', \<lparr>comment = ''Work on task A-1'', started = \<lparr>dt_ordinal = 739257, dt_second = 43200, dt_utcoffset = Some 10800\<rparr>, timeSpentSeconds = 3600\<rparr>)])"
    using t run by simp
  have ev: "map_sum id remaining_seconds (alloc_step [''A-1'', ''B-2''] [5, 1] 7200
      \<lparr>st_rng = (\<lambda>i. i + 1), current_dt = \<lparr>dt_ordinal = 739257, dt_second = 36000, dt_utcoffset = Some 10800\<rparr>, remaining_seconds = 10800, payloads = []\<rparr>) = Inr 3600"
    by code_simp
  then obtain s' where s': "alloc_step [''A-1'', ''B-2''] [5, 1] 7200
      \<lparr>st_rng = (\<lambda>i. i + 1), current_dt = \<lparr>dt_ordinal = 739257, dt_second = 36000, dt_utcoffset = Some 10800\<rparr>, remaining_seconds = 10800, payloads = []\<rparr> = Inr s'"
    by (cases "alloc_step [''A-1'', ''B-2''] [5, 1] 7200
      \<lparr>st_rng = (\<lambda>i. i + 1), current_dt = \<lparr>dt_ordinal = 739257, dt_second = 36000, dt_utcoffset = Some 10800\<rparr>, remaining_seconds = 10800, payloads = []\<rparr>") simp_all
  with t have "remaining_seconds s' \<le> remaining_seconds
      \<lparr>st_rng = (\<lambda>i. i + 1), current_dt = \<lparr>dt_ordinal = 739257, dt_second = 36000, dt_utcoffset = Some 10800\<rparr>, remaining_seconds = 10800, payloads = []\<rparr> - 3600"
    by blast
  with s' have b: "\<exists>s'. alloc_step [''A-1'', ''B-2''] [5, 1] 7200
      \<lparr>st_rng = (\<lambda>i. i + 1), current_dt = \<lparr>dt_ordinal = 739257, dt_second = 36000, dt_utcoffset = Some 10800\<rparr>, remaining_seconds = 10800, payloads = []\<rparr> = Inr s' \<and>
      remaining_seconds s' \<le> 10800 - 3600"
    by auto
  from a b show ?thesis by simp
qed

text \<open>
  C6. In a list that the allocator returns, the first entry starts at 10:00:00 on the
  target day at the offset UTC+3, every entry carries that offset, and the start
  timestamps are strictly increasing.
\<close>

theorem clock_starts_at_ten_and_increases:
  assumes "build_day_payloads d issues remaining max_task_hours g = Inr ps"
  shows "(ps \<noteq> [] \<longrightarrow>
            started (snd (hd ps)) =
              \<lparr>dt_ordinal = toordinal d, dt_second = 10 * 3600, dt_utcoffset = Some (3 * 3600)\<rparr>) \<and>
         sorted_wrt (\<lambda>a b. utc_seconds (started (snd a)) < utc_seconds (started (snd b))) ps \<and>
         (\<forall>e\<in>set ps. dt_utcoffset (started (snd e)) = Some (3 * 3600))"
proof -
  note em = build_day_payloads_emitted [OF assms]
  have "ps \<noteq> [] \<longrightarrow> started (snd (hd ps)) =
              \<lparr>dt_ordinal = toordinal d, dt_second = 10 * 3600, dt_utcoffset = Some (3 * 3600)\<rparr>"
    using emitted_hd [OF em] by simp
  moreover have
    "sorted_wrt (\<lambda>a b. utc_seconds (started (snd a)) < utc_seconds (started (snd b))) ps"
    using em by (rule emitted_increasing)
  moreover have "\<forall>e\<in>set ps. dt_utcoffset (started (snd e)) = Some (3 * 3600)"
    using emitted_offsets [OF em] by simp
  ultimately show ?thesis by blast
qed

theorem clock_starts_at_ten_and_increases_witness:
  "build_day_payloads \<lparr>date_year = 2025, date_month = 1, date_day = 6\<rparr>
     [\<lparr>key = ''A-1'', summary = ''first'', weight = 5\<rparr>,
      \<lparr>key = ''B-2'', summary = ''second'', weight = 1\<rparr>] 18000 3 (\<lambda>i. i * i + 7)
     = Inr [(''A-1'', \<lparr>comment = ''Work on task A-1'', started = \<lparr>dt_ordinal = 739257, dt_second = 36000, dt_utcoffset = Some 10800\<rparr>, timeSpentSeconds = 7200\<rparr>),
          (''A-1'', \<lparr>comment = ''Work on task A-1'', started = \<lparr>dt_ordinal = 739257, dt_second = 43200, dt_utcoffset = Some 10800\<rparr>, timeSpentSeconds = 10800\<rparr>)] \<and>
   started (snd (hd [(''A-1'', \<lparr>comment = ''Work on task A-1'', started = \<lparr>dt_ordinal = 739257, dt_second = 36000, dt_utcoffset = Some 10800\<rparr>, timeSpentSeconds = 7200\<rparr>),
          (''A-1'', \<lparr>comment = ''Work on task A-1'', started = \<lparr>dt_ordinal = 739257, dt_second = 43200, dt_utcoffset = Some 10800\<rparr>, timeSpentSeconds = 10800\<rparr>)]))
     = \<lparr>dt_ordinal = toordinal \<lparr>date_year = 2025, date_month = 1, date_day = 6\<rparr>,
        dt_second = 10 * 3600, dt_utcoffset = Some (3 * 3600)\<rparr> \<and>
   utc_seconds \<lparr>dt_ordinal = 739257, dt_second = 36000, dt_utcoffset = Some 10800\<rparr>
     < utc_seconds \<lparr>dt_ordinal = 739257, dt_second = 43200, dt_utcoffset = Some 10800\<rparr>"
proof -
  have run: "build_day_payloads \<lparr>date_year = 2025, date_month = 1, date_day = 6\<rparr>
     [\<lparr>key = ''A-1'', summary = ''first'', weight = 5\<rparr>,
      \<lparr>key = ''B-2'', summary = ''second'', weight = 1\<rparr>] 18000 3 (\<lambda>i. i * i + 7)
     = Inr [(''A-1'', \<lparr>comment = ''Work on task A-1'', started = \<lparr>dt_ordinal = 739257, dt_second = 36000, dt_utcoffset = Some 10800\<rparr>, timeSpentSeconds = 7200\<rparr>),
          (''A-1'', \<lparr>comment = ''Work on task A-1'', started = \<lparr>dt_ordinal = 739257, dt_second = 43200, dt_utcoffset = Some 10800\<rparr>, timeSpentSeconds = 10800\<rparr>)]"
    by code_simp
  from clock_starts_at_ten_and_increases [OF run] run show ?thesis by simp
qed

text \<open>
  C9. Under the preconditions, and within the limits of the standard library named for
  C1, the durations of the returned entries sum to exactly \<open>3600 * (remaining div 3600)\<close>,
  so that the part of the budget left over is \<open>remaining mod 3600\<close>. Outside those
  limits a call with a budget of an hour or more raises \<^verbatim>\<open>OverflowError\<close> and returns
  nothing (\<open>build_day_payloads_raises\<close>).
\<close>

theorem whole_hours_of_budget_allocated:
  assumes "preconditions issues remaining max_task_hours" and "valid_date d"
    and "clock_in_range d remaining" and "weights_in_range issues"
  shows "\<exists>ps. build_day_payloads d issues remaining max_task_hours g = Inr ps \<and>
           (\<Sum>e\<leftarrow>ps. timeSpentSeconds (snd e)) = 3600 * (remaining div 3600) \<and>
           remaining - (\<Sum>e\<leftarrow>ps. timeSpentSeconds (snd e)) = remaining mod 3600"
proof -
  from build_day_payloads_returns [OF assms] obtain ps where
    ps: "build_day_payloads d issues remaining max_task_hours g = Inr ps" by blast
  from assms(1) have r: "0 \<le> remaining" by (simp add: preconditions_def)
  from emitted_sum [OF build_day_payloads_emitted [OF ps] r]
  have sum: "(\<Sum>e\<leftarrow>ps. timeSpentSeconds (snd e)) = 3600 * (remaining div 3600)" .
  have "remaining - 3600 * (remaining div 3600) = remaining mod 3600"
    by (simp add: minus_mult_div_eq_mod)
  with ps sum show ?thesis by simp
qed

theorem whole_hours_of_budget_allocated_witness:
  "preconditions
     [\<lparr>key = ''A-1'', summary = ''first'', weight = 5\<rparr>,
      \<lparr>key = ''B-2'', summary = ''second'', weight = 1\<rparr>] 20000 3 \<and>
   valid_date \<lparr>date_year = 2025, date_month = 1, date_day = 6\<rparr> \<and>
   clock_in_range \<lparr>date_year = 2025, date_month = 1, date_day = 6\<rparr> 20000 \<and>
   weights_in_range
     [\<lparr>key = ''A-1'', summary = ''first'', weight = 5\<rparr>,
      \<lparr>key = ''B-2'', summary = ''second'', weight = 1\<rparr>] \<and>
   (\<exists>ps. build_day_payloads \<lparr>date_year = 2025, date_month = 1, date_day = 6\<rparr>
     [\<lparr>key = ''A-1'', summary = ''first'', weight = 5\<rparr>,
      \<lparr>key = ''B-2'', summary = ''second'', weight = 1\<rparr>] 20000 3 (\<lambda>i. 5 * i + 5) = Inr ps \<and>
     (\<Sum>e\<leftarrow>ps. timeSpentSeconds (snd e)) = 18000 \<and>
     20000 - (\<Sum>e\<leftarrow>ps. timeSpentSeconds (snd e)) = 2000)"
proof -
  have h1: "preconditions
     [\<lparr>key = ''A-1'', summary = ''first'', weight = 5\<rparr>,
      \<lparr>key = ''B-2'', summary = ''second'', weight = 1\<rparr>] 20000 3"
    by (simp add: preconditions_def)
  have h3: "clock_in_range \<lparr>date_year = 2025, date_month = 1, date_day = 6\<rparr> 20000"
    by code_simp
  have h4: "weights_in_range
     [\<lparr>key = ''A-1'', summary = ''first'', weight = 5\<rparr>,
      \<lparr>key = ''B-2'', summary = ''second'', weight = 1\<rparr>]"
    by code_simp
  from whole_hours_of_budget_allocated [OF h1 example_day_valid h3 h4, of "\<lambda>i. 5 * i + 5"]
    h1 example_day_valid h3 h4
  show ?thesis by simp
qed

text \<open>
  On 9999-12-31 a budget of fourteen and a half hours with a maximum of one hour per
  entry satisfies the preconditions, and the call raises instead of returning entries
  for fourteen hours.
\<close>

theorem whole_hours_counterexample:
  "preconditions [\<lparr>key = ''A-1'', summary = ''first'', weight = 1\<rparr>] 52200 1 \<and>
   valid_date \<lparr>date_year = 9999, date_month = 12, date_day = 31\<rparr> \<and>
   build_day_payloads \<lparr>date_year = 9999, date_month = 12, date_day = 31\<rparr>
     [\<lparr>key = ''A-1'', summary = ''first'', weight = 1\<rparr>] 52200 1 (\<lambda>i. i)
     = Inl OverflowError"
proof -
  have "preconditions [\<lparr>key = ''A-1'', summary = ''first'', weight = 1\<rparr>] 52200 1"
    by (simp add: preconditions_def)
  moreover have "build_day_payloads \<lparr>date_year = 9999, date_month = 12, date_day = 31\<rparr>
     [\<lparr>key = ''A-1'', summary = ''first'', weight = 1\<rparr>] 52200 1 (\<lambda>i. i)
     = Inl OverflowError"
    by code_simp
  ultimately show ?thesis using last_day_valid by simp
qed

text \<open>
  C10. The entries of a returned list tile the time without gap or overlap: each entry
  but the first starts where the clock stands after the entry before it, that is at the
  start of that entry plus its duration in seconds.
\<close>

theorem entries_tile_contiguously:
  assumes "build_day_payloads d issues remaining max_task_hours g = Inr ps"
    and "Suc i < length ps"
  shows "datetime_add_seconds (started (snd (ps ! i))) (timeSpentSeconds (snd (ps ! i)))
           = Inr (started (snd (ps ! Suc i))) \<and>
         utc_seconds (started (snd (ps ! Suc i)))
           = utc_seconds (started (snd (ps ! i))) + timeSpentSeconds (snd (ps ! i))"
proof -
  from emitted_tiles [OF build_day_payloads_emitted [OF assms(1)] assms(2)]
  have a: "datetime_add_seconds (started (snd (ps ! i))) (timeSpentSeconds (snd (ps ! i)))
           = Inr (started (snd (ps ! Suc i)))" .
  from a datetime_add_seconds_utc [OF a] show ?thesis by simp
qed

theorem entries_tile_contiguously_witness:
  "build_day_payloads \<lparr>date_year = 2025, date_month = 1, date_day = 6\<rparr>
     [\<lparr>key = ''A-1'', summary = ''first'', weight = 5\<rparr>,
      \<lparr>key = ''B-2'', summary = ''second'', weight = 1\<rparr>] 14400 2 (\<lambda>i. 3 * i + 2)
     = Inr [(''B-2'', \<lparr>comment = ''Work on task B-2'', started = \<lparr>dt_ordinal = 739257, dt_second = 36000, dt_utcoffset = Some 10800\<rparr>, timeSpentSeconds = 3600\<rparr>),
          (''B-2'', \<lparr>comment = ''Work on task B-2'', started = \<lparr>dt_ordinal = 739257, dt_second = 39600, dt_utcoffset = Some 10800\<rparr>, timeSpentSeconds = 3600\<rparr>),
          (''B-2'', \<lparr>comment = ''Work on task B-2'', started = \<lparr>dt_ordinal = 739257, dt_second = 43200, dt_utcoffset = Some 10800\<rparr>, timeSpentSeconds = 3600\<rparr>),
          (''B-2'', \<lparr>comment = ''Work on task B-2'', started = \<lparr>dt_ordinal = 739257, dt_second = 46800, dt_utcoffset = Some 10800\<rparr>, timeSpentSeconds = 3600\<rparr>)] \<and>
   datetime_add_seconds \<lparr>dt_ordinal = 739257, dt_second = 39600, dt_utcoffset = Some 10800\<rparr> 3600
     = Inr \<lparr>dt_ordinal = 739257, dt_second = 43200, dt_utcoffset = Some 10800\<rparr> \<and>
   utc_seconds \<lparr>dt_ordinal = 739257, dt_second = 43200, dt_utcoffset = Some 10800\<rparr>
     = utc_seconds \<lparr>dt_ordinal = 739257, dt_second = 39600, dt_utcoffset = Some 10800\<rparr> + 3600"
proof -
  have run: "build_day_payloads \<lparr>date_year = 2025, date_month = 1, date_day = 6\<rparr>
     [\<lparr>key = ''A-1'', summary = ''first'', weight = 5\<rparr>,
      \<lparr>key = ''B-2'', summary = ''second'', weight = 1\<rparr>] 14400 2 (\<lambda>i. 3 * i + 2)
     = Inr [(''B-2'', \<lparr>comment = ''Work on task B-2'', started = \<lparr>dt_ordinal = 739257, dt_second = 36000, dt_utcoffset = Some 10800\<rparr>, timeSpentSeconds = 3600\<rparr>),
          (''B-2'', \<lparr>comment = ''Work on task B-2'', started = \<lparr>dt_ordinal = 739257, dt_second = 39600, dt_utcoffset = Some 10800\<rparr>, timeSpentSeconds = 3600\<rparr>),
          (''B-2'', \<lparr>comment = ''Work on task B-2'', started = \<lparr>dt_ordinal = 739257, dt_second = 43200, dt_utcoffset = Some 10800\<rparr>, timeSpentSeconds = 3600\<rparr>),
          (''B-2'', \<lparr>comment = ''Work on task B-2'', started = \<lparr>dt_ordinal = 739257, dt_second = 46800, dt_utcoffset = Some 10800\<rparr>, timeSpentSeconds = 3600\<rparr>)]"
    by code_simp
  have len: "Suc 1 < length [(''B-2'', \<lparr>comment = ''Work on task B-2'', started = \<lparr>dt_ordinal = 739257, dt_second = 36000, dt_utcoffset = Some 10800\<rparr>, timeSpentSeconds = 3600\<rparr>),
          (''B-2'', \<lparr>comment = ''Work on task B-2'', started = \<lparr>dt_ordinal = 739257, dt_second = 39600, dt_utcoffset = Some 10800\<rparr>, timeSpentSeconds = 3600\<rparr>),
          (''B-2'', \<lparr>comment = ''Work on task B-2'', started = \<lparr>dt_ordinal = 739257, dt_second = 43200, dt_utcoffset = Some 10800\<rparr>, timeSpentSeconds = 3600\<rparr>),
          (''B-2'', \<lparr>comment = ''Work on task B-2'', started = \<lparr>dt_ordinal = 739257, dt_second = 46800, dt_utcoffset = Some 10800\<rparr>, timeSpentSeconds = 3600\<rparr>)]"
    by simp
  from entries_tile_contiguously [OF run len] run show ?thesis by simp
qed

section \<open>Properties of the per-day step\<close>




section \<open>Properties of the date helpers\<close>

text \<open>
  C7. For dates \<open>start_date \<le> end_date\<close> with \<open>end_date\<close> before 9999-12-31,
  \<^verbatim>\<open>working_days\<close> returns, in increasing order and without repetition, exactly the
  dates of the inclusive range whose weekday is Monday to Friday. For the range from
  Monday 2025-01-06 to Sunday 2025-01-12 these are the five dates 6 to 10 January. When
  \<open>end_date\<close> is 9999-12-31 the loop steps past the last date of the calendar and raises
  \<^verbatim>\<open>OverflowError\<close>.
\<close>

theorem working_days_are_the_weekdays_of_the_range:
  assumes "valid_date start_date" and "valid_date end_date"
    and "date_le start_date end_date" and "end_date \<noteq> date_max"
  shows "\<exists>ds. working_days start_date end_date = Inr ds \<and>
           set ds = {d. valid_date d \<and> date_le start_date d \<and> date_le d end_date \<and>
                        weekday d < 5} \<and>
           sorted_wrt date_less ds"
  using working_days_loop_correct [OF assms(2,4,1), of "[]"]
  by (simp add: working_days_def)

theorem working_days_are_the_weekdays_of_the_range_witness:
  "working_days \<lparr>date_year = 2025, date_month = 1, date_day = 6\<rparr>
     \<lparr>date_year = 2025, date_month = 1, date_day = 12\<rparr>
     = Inr [\<lparr>date_year = 2025, date_month = 1, date_day = 6\<rparr>,
          \<lparr>date_year = 2025, date_month = 1, date_day = 7\<rparr>,
          \<lparr>date_year = 2025, date_month = 1, date_day = 8\<rparr>,
          \<lparr>date_year = 2025, date_month = 1, date_day = 9\<rparr>,
          \<lparr>date_year = 2025, date_month = 1, date_day = 10\<rparr>] \<and>
   set [\<lparr>date_year = 2025, date_month = 1, date_day = 6\<rparr>,
        \<lparr>date_year = 2025, date_month = 1, date_day = 7\<rparr>,
        \<lparr>date_year = 2025, date_month = 1, date_day = 8\<rparr>,
        \<lparr>date_year = 2025, date_month = 1, date_day = 9\<rparr>,
        \<lparr>date_year = 2025, date_month = 1, date_day = 10\<rparr>]
     = {d. valid_date d \<and> date_le \<lparr>date_year = 2025, date_month = 1, date_day = 6\<rparr> d \<and>
           date_le d \<lparr>date_year = 2025, date_month = 1, date_day = 12\<rparr> \<and> weekday d < 5} \<and>
   sorted_wrt date_less [\<lparr>date_year = 2025, date_month = 1, date_day = 6\<rparr>,
        \<lparr>date_year = 2025, date_month = 1, date_day = 7\<rparr>,
        \<lparr>date_year = 2025, date_month = 1, date_day = 8\<rparr>,
        \<lparr>date_year = 2025, date_month = 1, date_day = 9\<rparr>,
        \<lparr>date_year = 2025, date_month = 1, date_day = 10\<rparr>]"
proof -
  have v2: "valid_date \<lparr>date_year = 2025, date_month = 1, date_day = 12\<rparr>"
    by (simp add: valid_date_def MINYEAR_def MAXYEAR_def days_in_month_def mdays_def)
  have le: "date_le \<lparr>date_year = 2025, date_month = 1, date_day = 6\<rparr>
     \<lparr>date_year = 2025, date_month = 1, date_day = 12\<rparr>"
    by (simp add: date_le_def)
  have ne: "\<lparr>date_year = 2025, date_month = 1, date_day = 12\<rparr> \<noteq> date_max"
    by (simp add: date_max_def)
  have run: "working_days \<lparr>date_year = 2025, date_month = 1, date_day = 6\<rparr>
     \<lparr>date_year = 2025, date_month = 1, date_day = 12\<rparr>
     = Inr [\<lparr>date_year = 2025, date_month = 1, date_day = 6\<rparr>,
          \<lparr>date_year = 2025, date_month = 1, date_day = 7\<rparr>,
          \<lparr>date_year = 2025, date_month = 1, date_day = 8\<rparr>,
          \<lparr>date_year = 2025, date_month = 1, date_day = 9\<rparr>,
          \<lparr>date_year = 2025, date_month = 1, date_day = 10\<rparr>]"
    by code_simp
  from working_days_are_the_weekdays_of_the_range [OF example_day_valid v2 le ne] run
  show ?thesis by simp
qed

theorem working_days_counterexample:
  "valid_date \<lparr>date_year = 9999, date_month = 12, date_day = 30\<rparr> \<and>
   valid_date \<lparr>date_year = 9999, date_month = 12, date_day = 31\<rparr> \<and>
   date_le \<lparr>date_year = 9999, date_month = 12, date_day = 30\<rparr>
     \<lparr>date_year = 9999, date_month = 12, date_day = 31\<rparr> \<and>
   working_days \<lparr>date_year = 9999, date_month = 12, date_day = 30\<rparr>
     \<lparr>date_year = 9999, date_month = 12, date_day = 31\<rparr> = Inl OverflowError"
proof -
  have "valid_date \<lparr>date_year = 9999, date_month = 12, date_day = 30\<rparr>"
    by (simp add: valid_date_def MINYEAR_def MAXYEAR_def days_in_month_def mdays_def)
  moreover have "date_le \<lparr>date_year = 9999, date_month = 12, date_day = 30\<rparr>
     \<lparr>date_year = 9999, date_month = 12, date_day = 31\<rparr>"
    by (simp add: date_le_def)
  moreover have "working_days \<lparr>date_year = 9999, date_month = 12, date_day = 30\<rparr>
     \<lparr>date_year = 9999, date_month = 12, date_day = 31\<rparr> = Inl OverflowError"
    by code_simp
  ultimately show ?thesis using last_day_valid by simp
qed

text \<open>
  C8. For every valid date outside January of the year 1, \<^verbatim>\<open>subtract_one_month\<close> returns
  a valid date in the month before (December of the year before for a date in January),
  whose day is the smaller of the day given and the last day of that month; for a 31
  March this is 28 or 29 February. For a date in January of the year 1 the month before
  lies in the year 0 and the constructor of the date raises \<^verbatim>\<open>ValueError\<close>.
\<close>

theorem subtract_one_month_previous_month_clamped:
  assumes "valid_date today" and "\<not> (date_year today = 1 \<and> date_month today = 1)"
  shows "\<exists>r. subtract_one_month today = Inr r \<and> valid_date r \<and>
           (if date_month today = 1
            then date_year r = date_year today - 1 \<and> date_month r = 12
            else date_year r = date_year today \<and> date_month r = date_month today - 1) \<and>
           date_day r = min (date_day today) (days_in_month (date_year r) (date_month r)) \<and>
           (date_month today = 3 \<and> date_day today = 31 \<longrightarrow>
              date_month r = 2 \<and> date_day r = (if isleap (date_year today) then 29 else 28))"
proof -
  from subtract_one_month_general [OF assms] obtain r where
    r: "subtract_one_month today = Inr r" "valid_date r"
       "if date_month today = 1
            then date_year r = date_year today - 1 \<and> date_month r = 12
            else date_year r = date_year today \<and> date_month r = date_month today - 1"
       "date_day r = min (date_day today) (days_in_month (date_year r) (date_month r))"
    by blast
  have "date_month r = 2 \<and> date_day r = (if isleap (date_year today) then 29 else 28)"
    if "date_month today = 3" and "date_day today = 31"
    using r(3,4) that by (simp add: days_in_month_def mdays_def)
  with r show ?thesis by blast
qed

theorem subtract_one_month_previous_month_clamped_witness:
  "valid_date \<lparr>date_year = 2025, date_month = 3, date_day = 31\<rparr> \<and>
   subtract_one_month \<lparr>date_year = 2025, date_month = 3, date_day = 31\<rparr>
     = Inr \<lparr>date_year = 2025, date_month = 2, date_day = 28\<rparr> \<and>
   valid_date \<lparr>date_year = 2025, date_month = 2, date_day = 28\<rparr> \<and>
   subtract_one_month \<lparr>date_year = 2024, date_month = 3, date_day = 31\<rparr>
     = Inr \<lparr>date_year = 2024, date_month = 2, date_day = 29\<rparr>"
proof -
  have v: "valid_date \<lparr>date_year = 2025, date_month = 3, date_day = 31\<rparr>"
    by (simp add: valid_date_def MINYEAR_def MAXYEAR_def days_in_month_def mdays_def)
  have n: "\<not> (date_year \<lparr>date_year = 2025, date_month = 3, date_day = 31\<rparr> = 1 \<and>
            date_month \<lparr>date_year = 2025, date_month = 3, date_day = 31\<rparr> = 1)"
    by simp
  have e1: "subtract_one_month \<lparr>date_year = 2025, date_month = 3, date_day = 31\<rparr>
     = Inr \<lparr>date_year = 2025, date_month = 2, date_day = 28\<rparr>"
    by code_simp
  have e2: "subtract_one_month \<lparr>date_year = 2024, date_month = 3, date_day = 31\<rparr>
     = Inr \<lparr>date_year = 2024, date_month = 2, date_day = 29\<rparr>"
    by code_simp
  from subtract_one_month_previous_month_clamped [OF v n] e1 have
    "valid_date \<lparr>date_year = 2025, date_month = 2, date_day = 28\<rparr>"
    by auto
  with v e1 e2 show ?thesis by simp
qed

theorem subtract_one_month_counterexample:
  "valid_date \<lparr>date_year = 1, date_month = 1, date_day = 15\<rparr> \<and>
   subtract_one_month \<lparr>date_year = 1, date_month = 1, date_day = 15\<rparr> = Inl ValueError"
proof -
  have "valid_date \<lparr>date_year = 1, date_month = 1, date_day = 15\<rparr>"
    by (simp add: valid_date_def MINYEAR_def MAXYEAR_def days_in_month_def mdays_def)
  moreover have "subtract_one_month \<lparr>date_year = 1, date_month = 1, date_day = 15\<rparr> = Inl ValueError"
    by code_simp
  ultimately show ?thesis by simp
qed

end
